theory Spec2Isabelle
  imports Complex_Main "HOL-Library.Word" "HOL-Library.Log_Nat"
begin

section \<open>The Size type and its unit constants\<close>

text \<open>
  \<^verbatim>\<open>type Size uint64\<close>: a byte count is an unsigned 64-bit machine integer, so
  \<open>+\<close>, \<open>*\<close> wrap modulo \<open>2 ^ 64\<close>, \<open>div\<close> and \<open>mod\<close> are the unsigned operations.
\<close>

type_synonym Size = "64 word"

definition Byte :: Size where
  "Byte = 1"

definition Kilobyte :: Size where
  "Kilobyte = 1000 * Byte"

definition Megabyte :: Size where
  "Megabyte = 1000 * Kilobyte"

definition Gigabyte :: Size where
  "Gigabyte = 1000 * Megabyte"

definition Terabyte :: Size where
  "Terabyte = 1000 * Gigabyte"

definition Petabyte :: Size where
  "Petabyte = 1000 * Terabyte"

definition Kibibyte :: Size where
  "Kibibyte = 1024 * Byte"

definition Mebibyte :: Size where
  "Mebibyte = 1024 * Kibibyte"

definition Gibibyte :: Size where
  "Gibibyte = 1024 * Mebibyte"

definition Tebibyte :: Size where
  "Tebibyte = 1024 * Gibibyte"

definition Pebibyte :: Size where
  "Pebibyte = 1024 * Tebibyte"

text \<open>The package variable \<^verbatim>\<open>units\<close>, in the order of the source.\<close>

definition units :: "Size list" where
  "units = [Pebibyte, Petabyte, Tebibyte, Terabyte, Gibibyte, Gigabyte,
            Mebibyte, Megabyte, Kibibyte, Kilobyte]"

section \<open>Floor\<close>

text \<open>
  \<^verbatim>\<open>for _, unit := range units { if s >= unit { return (s / unit) * unit } }; return s\<close>.
  The loop over the slice is a recursion over the list; the early return is the first
  branch.
\<close>

fun Floor_loop :: "Size list \<Rightarrow> Size \<Rightarrow> Size" where
  "Floor_loop [] s = s"
| "Floor_loop (unit # rest) s = (if s \<ge> unit then (s div unit) * unit else Floor_loop rest s)"

definition Floor :: "Size \<Rightarrow> Size" where
  "Floor s = Floor_loop units s"

section \<open>Go's float64, as far as the package uses it\<close>

text \<open>
  The package converts sizes to \<^verbatim>\<open>float64\<close>, divides and multiplies there, and converts
  back. A finite float64 is modelled by the rational number it denotes, an operation by
  the exact rational result rounded to the nearest binary64 value, ties to even (IEEE 754,
  which Go's arithmetic follows). The sign of a zero is not modelled: no result of the
  package depends on it.
\<close>

datatype f64 = Finite rat | PInf | NInf | NaN

text \<open>For \<open>x > 0\<close>, the exponent \<open>e\<close> with \<open>2 ^ e \<le> x < 2 ^ (e + 1)\<close>.\<close>

definition ilog2 :: "rat \<Rightarrow> int" where
  "ilog2 x =
     (if 1 \<le> x then int (floorlog 2 (nat \<lfloor>x\<rfloor>)) - 1
      else - int (floorlog 2 (nat (\<lceil>1 / x\<rceil> - 1))))"

definition round_half_even :: "rat \<Rightarrow> int" where
  "round_half_even x =
     (let n = \<lfloor>x\<rfloor>; d = x - of_int n
      in if d < 1 / 2 then n else if 1 / 2 < d then n + 1 else if even n then n else n + 1)"

text \<open>
  Rounding to binary64, with no bound on the exponent from above: 53 significant bits,
  the unit in the last place never below \<open>2 ^ -1074\<close> (subnormal numbers).
\<close>

definition round_binary64 :: "rat \<Rightarrow> rat" where
  "round_binary64 x =
     (if x = 0 then 0
      else
        let e = max (ilog2 \<bar>x\<bar>) (- 1022) - 52
        in of_int (round_half_even (x / 2 powi e)) * 2 powi e)"

text \<open>The float64 nearest to a rational: an infinity when the rounded value overflows.\<close>

definition round_f64 :: "rat \<Rightarrow> f64" where
  "round_f64 x =
     (let y = round_binary64 x
      in if 2 powi 1024 \<le> y then PInf else if y \<le> - (2 powi 1024) then NInf else Finite y)"

text \<open>\<^verbatim>\<open>float64(s)\<close> for an unsigned 64-bit \<open>s\<close>.\<close>

definition u64_to_f64 :: "64 word \<Rightarrow> f64" where
  "u64_to_f64 w = round_f64 (of_nat (unat w))"

definition signed_inf :: "bool \<Rightarrow> f64" where
  "signed_inf neg = (if neg then NInf else PInf)"

fun f64_mul :: "f64 \<Rightarrow> f64 \<Rightarrow> f64" where
  "f64_mul (Finite a) (Finite b) = round_f64 (a * b)"
| "f64_mul NaN y = NaN"
| "f64_mul x NaN = NaN"
| "f64_mul (Finite a) y = (if a = 0 then NaN else signed_inf ((a < 0) \<noteq> (y = NInf)))"
| "f64_mul x (Finite b) = (if b = 0 then NaN else signed_inf ((x = NInf) \<noteq> (b < 0)))"
| "f64_mul x y = signed_inf ((x = NInf) \<noteq> (y = NInf))"

fun f64_div :: "f64 \<Rightarrow> f64 \<Rightarrow> f64" where
  "f64_div (Finite a) (Finite b) =
     (if b = 0 then (if a = 0 then NaN else signed_inf (a < 0)) else round_f64 (a / b))"
| "f64_div NaN y = NaN"
| "f64_div x NaN = NaN"
| "f64_div (Finite a) y = Finite 0"
| "f64_div x (Finite b) = signed_inf ((x = NInf) \<noteq> (b < 0))"
| "f64_div x y = NaN"

text \<open>The comparison \<^verbatim>\<open>==\<close> of two float64 values: a NaN equals nothing.\<close>

definition f64_eq :: "f64 \<Rightarrow> f64 \<Rightarrow> bool" where
  "f64_eq x y = (x \<noteq> NaN \<and> x = y)"

text \<open>\<^verbatim>\<open>math.Floor\<close> and \<^verbatim>\<open>math.Round\<close> (half away from zero); both are exact.\<close>

fun math_Floor :: "f64 \<Rightarrow> f64" where
  "math_Floor (Finite x) = Finite (of_int \<lfloor>x\<rfloor>)"
| "math_Floor x = x"

fun math_Round :: "f64 \<Rightarrow> f64" where
  "math_Round (Finite x) =
     Finite (of_int (if 0 \<le> x then \<lfloor>x + 1 / 2\<rfloor> else - \<lfloor>- x + 1 / 2\<rfloor>))"
| "math_Round x = x"

text \<open>
  What Go leaves to the implementation, and the Unicode tables, are parameters of the
  model. A conversion of a float64 to an integer type discards the fraction; when the
  integer type cannot represent the result, "the conversion succeeds but the result value
  is implementation-dependent" (the Go specification): \<open>u64_out_of_range\<close> and
  \<open>i64_out_of_range\<close> are the values the platform gives then. \<open>unicode_lower\<close> is
  \<^verbatim>\<open>strings.Map(unicode.ToLower, s)\<close>, which \<^verbatim>\<open>strings.ToLower\<close> applies to a string with
  a byte outside ASCII.
\<close>

record platform =
  u64_out_of_range :: "f64 \<Rightarrow> 64 word"
  i64_out_of_range :: "f64 \<Rightarrow> 64 word"
  unicode_lower :: "string \<Rightarrow> string"

definition truncate_rat :: "rat \<Rightarrow> int" where
  "truncate_rat x = (if 0 \<le> x then \<lfloor>x\<rfloor> else \<lceil>x\<rceil>)"

text \<open>\<^verbatim>\<open>uint64(f)\<close>, hence \<^verbatim>\<open>Size(f)\<close>.\<close>

definition f64_to_u64 :: "platform \<Rightarrow> f64 \<Rightarrow> 64 word" where
  "f64_to_u64 pf f =
     (case f of
        Finite x \<Rightarrow>
          if - 1 < x \<and> x < 2 ^ 64 then word_of_int (truncate_rat x) else u64_out_of_range pf f
      | _ \<Rightarrow> u64_out_of_range pf f)"

text \<open>\<^verbatim>\<open>int64(f)\<close>, read as a signed integer.\<close>

definition f64_to_i64 :: "platform \<Rightarrow> f64 \<Rightarrow> int" where
  "f64_to_i64 pf f =
     (case f of
        Finite x \<Rightarrow>
          if - (2 ^ 63) - 1 < x \<and> x < 2 ^ 63 then truncate_rat x else sint (i64_out_of_range pf f)
      | _ \<Rightarrow> sint (i64_out_of_range pf f))"

section \<open>Bytes, digits and letters\<close>

text \<open>A Go string is a sequence of bytes; \<open>string\<close> is a list of 8-bit characters.\<close>

definition byte :: "char \<Rightarrow> nat" where
  "byte c = of_char c"

definition is_digit :: "char \<Rightarrow> bool" where
  "is_digit c = (byte CHR ''0'' \<le> byte c \<and> byte c \<le> byte CHR ''9'')"

definition is_lower :: "char \<Rightarrow> bool" where
  "is_lower c = (byte CHR ''a'' \<le> byte c \<and> byte c \<le> byte CHR ''z'')"

definition is_upper :: "char \<Rightarrow> bool" where
  "is_upper c = (byte CHR ''A'' \<le> byte c \<and> byte c \<le> byte CHR ''Z'')"

definition is_ascii :: "char \<Rightarrow> bool" where
  "is_ascii c = (byte c < 128)"

definition lower_ascii :: "char \<Rightarrow> char" where
  "lower_ascii c = (if is_upper c then char_of (byte c + 32) else c)"

definition digit_val :: "char \<Rightarrow> nat" where
  "digit_val c = byte c - byte CHR ''0''"

text \<open>
  \<^verbatim>\<open>strings.ToLower\<close>: a string of ASCII bytes is mapped byte by byte, any other string
  goes through the Unicode mapping.
\<close>

definition ToLower :: "platform \<Rightarrow> string \<Rightarrow> string" where
  "ToLower pf s = (if list_all is_ascii s then map lower_ascii s else unicode_lower pf s)"

section \<open>The regular expression\<close>

text \<open>
  \<^verbatim>\<open>sizeRegex = ([0-9]*)(\.[0-9]*)?([a-z]+)\<close>, without anchors. \<open>match_here\<close> is a match that
  starts at the head of the string: the digits are taken greedily, the optional group is
  tried when a dot follows (giving digits back never helps, the next byte would be a
  digit), and at least one letter must follow. The result is the three groups; a group
  that took no part is the empty string, as in \<^verbatim>\<open>FindStringSubmatch\<close>.
  \<open>FindStringSubmatch\<close> is the leftmost match; \<open>None\<close> is Go's nil slice.
\<close>

definition match_here :: "string \<Rightarrow> (string \<times> string \<times> string) option" where
  "match_here s =
     (let ss1 = takeWhile is_digit s; r1 = dropWhile is_digit s
      in case r1 of
           [] \<Rightarrow> None
         | c # r2 \<Rightarrow>
             if c = CHR ''.'' then
               (let ss3 = takeWhile is_lower (dropWhile is_digit r2)
                in if ss3 = [] then None else Some (ss1, c # takeWhile is_digit r2, ss3))
             else
               (let ss3 = takeWhile is_lower r1
                in if ss3 = [] then None else Some (ss1, [], ss3)))"

fun FindStringSubmatch :: "string \<Rightarrow> (string \<times> string \<times> string) option" where
  "FindStringSubmatch [] = None"
| "FindStringSubmatch (c # s) =
     (case match_here (c # s) of Some m \<Rightarrow> Some m | None \<Rightarrow> FindStringSubmatch s)"

section \<open>Errors\<close>

text \<open>
  The errors \<^verbatim>\<open>Parse\<close> returns: its own three (\<^verbatim>\<open>errors.New\<close>, \<^verbatim>\<open>fmt.Errorf\<close>) and
  \<^verbatim>\<open>*strconv.NumError\<close>, which carries the string given to \<^verbatim>\<open>ParseFloat\<close> and
  \<^verbatim>\<open>strconv.ErrSyntax\<close> or \<^verbatim>\<open>strconv.ErrRange\<close>.
\<close>

datatype num_error = ErrSyntax | ErrRange

datatype error =
    EmptyInput
  | InvalidFormat string
  | NumError string num_error
  | InvalidUnitSuffix string

section \<open>strconv.ParseFloat\<close>

text \<open>
  \<^verbatim>\<open>strconv.ParseFloat(s, 64)\<close> belongs to Go's standard library, not to the package. It is
  modelled after its documentation and the structure of its scanner: it accepts the
  decimal and hexadecimal floating-point literals of Go (underscores between digits
  included), and \<^verbatim>\<open>inf\<close>, \<^verbatim>\<open>infinity\<close> (signed or not) and \<^verbatim>\<open>nan\<close> in any letter case; it
  returns the nearest float64, or \<^verbatim>\<open>ErrRange\<close> when that is an infinity, and \<^verbatim>\<open>ErrSyntax\<close>
  for every other string.
\<close>

fun commonPrefixLenIgnoreCase :: "string \<Rightarrow> string \<Rightarrow> nat" where
  "commonPrefixLenIgnoreCase (c # s) (p # prefix) =
     (if lower_ascii c = p then Suc (commonPrefixLenIgnoreCase s prefix) else 0)"
| "commonPrefixLenIgnoreCase s prefix = 0"

definition special_inf :: "f64 \<Rightarrow> nat \<Rightarrow> string \<Rightarrow> (f64 \<times> nat) option" where
  "special_inf v nsign s =
     (let n = commonPrefixLenIgnoreCase s ''infinity'';
          n' = (if 3 < n \<and> n < 8 then 3 else n)
      in if n' = 3 \<or> n' = 8 then Some (v, nsign + n') else None)"

text \<open>The special value a string starts with, and the number of bytes it takes.\<close>

definition special :: "string \<Rightarrow> (f64 \<times> nat) option" where
  "special s =
     (case s of
        [] \<Rightarrow> None
      | c # t \<Rightarrow>
          if c = CHR ''+'' then special_inf PInf 1 t
          else if c = CHR ''-'' then special_inf NInf 1 t
          else if c = CHR ''i'' \<or> c = CHR ''I'' then special_inf PInf 0 s
          else if c = CHR ''n'' \<or> c = CHR ''N'' then
            (if commonPrefixLenIgnoreCase s ''nan'' = 3 then Some (NaN, 3) else None)
          else None)"

definition is_hex_letter :: "char \<Rightarrow> bool" where
  "is_hex_letter c =
     (byte CHR ''a'' \<le> byte (lower_ascii c) \<and> byte (lower_ascii c) \<le> byte CHR ''f'')"

definition hex_letter_val :: "char \<Rightarrow> nat" where
  "hex_letter_val c = byte (lower_ascii c) - byte CHR ''a'' + 10"

text \<open>
  The variables of \<^verbatim>\<open>readFloat\<close>'s loop over the mantissa. The scanner keeps the first 19
  digits in a \<^verbatim>\<open>uint64\<close> and a flag for the rest, and the conversion falls back to all the
  digits when they matter: the model keeps all the digits in \<open>mantissa\<close>.
\<close>

record scan =
  mantissa :: nat
  nd :: nat
  dp :: int
  sawdot :: bool
  sawdigits :: bool
  underscores :: bool

definition scan_init :: scan where
  "scan_init = \<lparr>mantissa = 0, nd = 0, dp = 0, sawdot = False, sawdigits = False,
                 underscores = False\<rparr>"

text \<open>The loop: the state after it and the bytes it did not read.\<close>

fun scan_mantissa :: "bool \<Rightarrow> scan \<Rightarrow> string \<Rightarrow> scan \<times> string" where
  "scan_mantissa hex st [] = (st, [])"
| "scan_mantissa hex st (c # cs) =
     (if c = CHR ''_'' then scan_mantissa hex (st\<lparr>underscores := True\<rparr>) cs
      else if c = CHR ''.'' then
        (if sawdot st then (st, c # cs)
         else scan_mantissa hex (st\<lparr>sawdot := True, dp := int (nd st)\<rparr>) cs)
      else if is_digit c then
        (if c = CHR ''0'' \<and> nd st = 0 then
           scan_mantissa hex (st\<lparr>sawdigits := True, dp := dp st - 1\<rparr>) cs
         else
           scan_mantissa hex
             (st\<lparr>sawdigits := True, nd := nd st + 1,
                 mantissa := mantissa st * (if hex then 16 else 10) + digit_val c\<rparr>) cs)
      else if hex \<and> is_hex_letter c then
        scan_mantissa hex
          (st\<lparr>sawdigits := True, nd := nd st + 1,
              mantissa := mantissa st * 16 + hex_letter_val c\<rparr>) cs
      else (st, c # cs))"

text \<open>
  The digits of the exponent: the value (no longer accumulated once it has reached 10000),
  whether an underscore was seen, and the bytes not read.
\<close>

fun scan_exponent :: "nat \<Rightarrow> bool \<Rightarrow> string \<Rightarrow> nat \<times> bool \<times> string" where
  "scan_exponent e us [] = (e, us, [])"
| "scan_exponent e us (c # cs) =
     (if c = CHR ''_'' then scan_exponent e True cs
      else if is_digit c then
        scan_exponent (if e < 10000 then e * 10 + digit_val c else e) us cs
      else (e, us, c # cs))"

text \<open>
  The optional exponent after the mantissa (\<^verbatim>\<open>e\<close> for a decimal literal, \<^verbatim>\<open>p\<close>, required,
  for a hexadecimal one): the signed exponent, whether an underscore was seen, and the
  bytes not read; \<open>None\<close> where \<^verbatim>\<open>readFloat\<close> gives up.
\<close>

definition read_exponent :: "bool \<Rightarrow> string \<Rightarrow> (int \<times> bool \<times> string) option" where
  "read_exponent hex s =
     (case s of
        [] \<Rightarrow> (if hex then None else Some (0, False, s))
      | c # t \<Rightarrow>
          if lower_ascii c = (if hex then CHR ''p'' else CHR ''e'') then
            (case t of
               [] \<Rightarrow> None
             | c1 # t1 \<Rightarrow>
                 (let esign = (if c1 = CHR ''-'' then - 1 else 1);
                      t2 = (if c1 = CHR ''+'' \<or> c1 = CHR ''-'' then t1 else t)
                  in case t2 of
                       [] \<Rightarrow> None
                     | c2 # t3 \<Rightarrow>
                         if is_digit c2 then
                           (case scan_exponent 0 False t2 of
                              (e, us, rest) \<Rightarrow> Some (int e * esign, us, rest))
                         else None))
          else if hex then None
          else Some (0, False, s))"

text \<open>
  \<^verbatim>\<open>underscoreOK\<close>: an underscore stands only between two digits, or between the base
  prefix and a digit. \<open>saw\<close> is the last byte seen: \<open>CHR ''0''\<close> for a digit or the base
  prefix, \<open>CHR ''_''\<close> for an underscore, \<open>CHR ''!''\<close> for anything else, \<open>CHR ''^''\<close> at the start.
\<close>

fun underscore_loop :: "bool \<Rightarrow> char \<Rightarrow> string \<Rightarrow> bool" where
  "underscore_loop hex saw [] = (saw \<noteq> CHR ''_'')"
| "underscore_loop hex saw (c # cs) =
     (if is_digit c \<or> (hex \<and> is_hex_letter c) then underscore_loop hex CHR ''0'' cs
      else if c = CHR ''_'' then
        (if saw \<noteq> CHR ''0'' then False else underscore_loop hex CHR ''_'' cs)
      else if saw = CHR ''_'' then False
      else underscore_loop hex CHR ''!'' cs)"

definition underscoreOK :: "string \<Rightarrow> bool" where
  "underscoreOK s =
     (let s1 = (case s of c # t \<Rightarrow> if c = CHR ''-'' \<or> c = CHR ''+'' then t else s | [] \<Rightarrow> s)
      in case s1 of
           c0 # c1 # t \<Rightarrow>
             if c0 = CHR ''0''
                \<and> (lower_ascii c1 = CHR ''b'' \<or> lower_ascii c1 = CHR ''o'' \<or> lower_ascii c1 = CHR ''x'')
             then underscore_loop (lower_ascii c1 = CHR ''x'') CHR ''0'' t
             else underscore_loop False CHR ''^'' s1
         | _ \<Rightarrow> underscore_loop False CHR ''^'' s1)"

text \<open>
  A literal read by \<^verbatim>\<open>readFloat\<close>: sign, base (hexadecimal or decimal), mantissa and
  exponent. It denotes \<open>\<plusminus> mantissa * 10 ^ exp\<close>, or \<open>\<plusminus> mantissa * 2 ^ exp\<close> when hexadecimal.
\<close>

datatype float_lit = FloatLit bool bool nat int

text \<open>\<^verbatim>\<open>readFloat\<close>: the literal at the head of the string and the number of bytes read.\<close>

definition readFloat :: "string \<Rightarrow> (float_lit \<times> nat) option" where
  "readFloat s =
     (let neg = (case s of c # t \<Rightarrow> c = CHR ''-'' | [] \<Rightarrow> False);
          s1 = (case s of c # t \<Rightarrow> if c = CHR ''+'' \<or> c = CHR ''-'' then t else s | [] \<Rightarrow> s);
          hex = (case s1 of c0 # c1 # c2 # t \<Rightarrow> c0 = CHR ''0'' \<and> lower_ascii c1 = CHR ''x''
                 | _ \<Rightarrow> False);
          s2 = (if hex then drop 2 s1 else s1)
      in case scan_mantissa hex scan_init s2 of
           (st, s3) \<Rightarrow>
             if \<not> sawdigits st then None
             else
               (let dp1 = (if sawdot st then dp st else int (nd st));
                    dp2 = (if hex then dp1 * 4 else dp1);
                    ndMant = (if hex then int (nd st) * 4 else int (nd st))
                in case read_exponent hex s3 of
                     None \<Rightarrow> None
                   | Some (e, us, s4) \<Rightarrow>
                       (let exp = (if mantissa st \<noteq> 0 then dp2 + e - ndMant else 0);
                            n = length s - length s4
                        in if (underscores st \<or> us) \<and> \<not> underscoreOK (take n s) then None
                           else Some (FloatLit neg hex (mantissa st) exp, n))))"

definition float_lit_value :: "float_lit \<Rightarrow> rat" where
  "float_lit_value l =
     (case l of
        FloatLit neg hex m e \<Rightarrow>
          (if neg then - 1 else 1) * of_nat m * (if hex then 2 else 10) powi e)"

text \<open>
  \<^verbatim>\<open>ParseFloat\<close>: the whole string must be one special value or one literal; the value is
  the literal's, rounded to the nearest float64 (ties to even), and an overflow is
  \<^verbatim>\<open>ErrRange\<close>.
\<close>

definition ParseFloat :: "string \<Rightarrow> error + f64" where
  "ParseFloat s =
     (case special s of
        Some (v, n) \<Rightarrow> if n = length s then Inr v else Inl (NumError s ErrSyntax)
      | None \<Rightarrow>
          (case readFloat s of
             None \<Rightarrow> Inl (NumError s ErrSyntax)
           | Some (l, n) \<Rightarrow>
               if n \<noteq> length s then Inl (NumError s ErrSyntax)
               else
                 (let f = round_f64 (float_lit_value l)
                  in if f = PInf \<or> f = NInf then Inl (NumError s ErrRange) else Inr f)))"

section \<open>Parse\<close>

fun suffixSize :: "string \<Rightarrow> error + Size" where
  "suffixSize suffix =
     (if suffix = ''b'' then Inr Byte
      else if suffix = ''kb'' then Inr Kilobyte
      else if suffix = ''mb'' then Inr Megabyte
      else if suffix = ''gb'' then Inr Gigabyte
      else if suffix = ''tb'' then Inr Terabyte
      else if suffix = ''pb'' then Inr Petabyte
      else if suffix = ''kib'' then Inr Kibibyte
      else if suffix = ''mib'' then Inr Mebibyte
      else if suffix = ''gib'' then Inr Gibibyte
      else if suffix = ''tib'' then Inr Tebibyte
      else if suffix = ''pib'' then Inr Pebibyte
      else Inl (InvalidUnitSuffix suffix))"

definition Parse :: "platform \<Rightarrow> string \<Rightarrow> error + Size" where
  "Parse pf s =
     (if s = [] then Inl EmptyInput
      else
        case ParseFloat s of
          Inr f \<Rightarrow> Inr (f64_to_u64 pf f)
        | Inl _ \<Rightarrow>
            (case FindStringSubmatch (ToLower pf s) of
               None \<Rightarrow> Inl (InvalidFormat s)
             | Some (ss1, ss2, ss3) \<Rightarrow>
                 (case ParseFloat (ss1 @ ss2) of
                    Inl err \<Rightarrow> Inl err
                  | Inr f \<Rightarrow>
                      (case suffixSize ss3 of
                         Inl err \<Rightarrow> Inl err
                       | Inr sz \<Rightarrow> Inr (f64_to_u64 pf (f64_mul f (u64_to_f64 sz)))))))"

section \<open>The accessors\<close>

definition Kilobytes :: "Size \<Rightarrow> f64" where
  "Kilobytes s = f64_div (u64_to_f64 s) (u64_to_f64 Kilobyte)"

definition Megabytes :: "Size \<Rightarrow> f64" where
  "Megabytes s = f64_div (u64_to_f64 s) (u64_to_f64 Megabyte)"

definition Gigabytes :: "Size \<Rightarrow> f64" where
  "Gigabytes s = f64_div (u64_to_f64 s) (u64_to_f64 Gigabyte)"

definition Terabytes :: "Size \<Rightarrow> f64" where
  "Terabytes s = f64_div (u64_to_f64 s) (u64_to_f64 Terabyte)"

definition Petabytes :: "Size \<Rightarrow> f64" where
  "Petabytes s = f64_div (u64_to_f64 s) (u64_to_f64 Petabyte)"

definition Kibibytes :: "Size \<Rightarrow> f64" where
  "Kibibytes s = f64_div (u64_to_f64 s) (u64_to_f64 Kibibyte)"

definition Mebibytes :: "Size \<Rightarrow> f64" where
  "Mebibytes s = f64_div (u64_to_f64 s) (u64_to_f64 Mebibyte)"

definition Gibibytes :: "Size \<Rightarrow> f64" where
  "Gibibytes s = f64_div (u64_to_f64 s) (u64_to_f64 Gibibyte)"

definition Tebibytes :: "Size \<Rightarrow> f64" where
  "Tebibytes s = f64_div (u64_to_f64 s) (u64_to_f64 Tebibyte)"

definition Pebibytes :: "Size \<Rightarrow> f64" where
  "Pebibytes s = f64_div (u64_to_f64 s) (u64_to_f64 Pebibyte)"

section \<open>fmt.Sprintf, for the three verbs the package uses\<close>

definition digit_char :: "nat \<Rightarrow> char" where
  "digit_char d = ''0123456789'' ! d"

text \<open>\<^verbatim>\<open>%d\<close> of an unsigned value: the decimal digits, no leading zero.\<close>

fun show_nat :: "nat \<Rightarrow> string" where
  "show_nat n = (if n < 10 then [digit_char n] else show_nat (n div 10) @ [digit_char (n mod 10)])"

text \<open>\<^verbatim>\<open>%d\<close> of a signed value.\<close>

definition show_int :: "int \<Rightarrow> string" where
  "show_int i = (if i < 0 then CHR ''-'' # show_nat (nat (- i)) else show_nat (nat i))"

text \<open>
  \<^verbatim>\<open>%.2f\<close>: the exact value of the float64 rounded to two decimals, ties to even; the
  digits before the point, the point, two digits. Go prints \<^verbatim>\<open>NaN\<close>, \<^verbatim>\<open>+Inf\<close> and \<^verbatim>\<open>-Inf\<close>
  for the special values.
\<close>

definition sprintf_2f :: "f64 \<Rightarrow> string" where
  "sprintf_2f f =
     (case f of
        Finite x \<Rightarrow>
          (let n = nat (round_half_even (\<bar>x\<bar> * 100))
           in (if x < 0 then [CHR ''-''] else []) @ show_nat (n div 100) @ [CHR ''.'']
              @ [digit_char (n div 10 mod 10), digit_char (n mod 10)])
      | PInf \<Rightarrow> ''+Inf''
      | NInf \<Rightarrow> ''-Inf''
      | NaN \<Rightarrow> ''NaN'')"

section \<open>String\<close>

definition format :: "platform \<Rightarrow> f64 \<Rightarrow> string \<Rightarrow> string" where
  "format pf size' suffix =
     (if f64_eq (math_Floor size') size' then show_int (f64_to_i64 pf size') @ suffix
      else sprintf_2f size' @ suffix)"

definition String :: "platform \<Rightarrow> Size \<Rightarrow> string" where
  "String pf s =
     (if s = 0 then ''0B''
      else if s mod Petabyte = 0 then format pf (Petabytes s) ''PB''
      else if s \<ge> Pebibyte then format pf (Pebibytes s) ''PiB''
      else if s mod Terabyte = 0 then format pf (Terabytes s) ''TB''
      else if s \<ge> Tebibyte then format pf (Tebibytes s) ''TiB''
      else if s mod Gigabyte = 0 then format pf (Gigabytes s) ''GB''
      else if s \<ge> Gibibyte then format pf (Gibibytes s) ''GiB''
      else if s mod Megabyte = 0 then format pf (Megabytes s) ''MB''
      else if s \<ge> Mebibyte then format pf (Mebibytes s) ''MiB''
      else if s mod Kilobyte = 0 then format pf (Kilobytes s) ''kB''
      else if s \<ge> Kibibyte then format pf (Kibibytes s) ''KiB''
      else show_nat (unat s) @ ''B'')"

section \<open>Round\<close>

text \<open>
  \<^verbatim>\<open>return Size(math.Round(float64(s)/float64(unit))) * unit\<close>: the product is of two
  \<^verbatim>\<open>Size\<close> values, unsigned 64-bit, and wraps.
\<close>

fun Round_loop :: "platform \<Rightarrow> Size list \<Rightarrow> Size \<Rightarrow> Size" where
  "Round_loop pf [] s = s"
| "Round_loop pf (unit # rest) s =
     (if s \<ge> unit then
        f64_to_u64 pf (math_Round (f64_div (u64_to_f64 s) (u64_to_f64 unit))) * unit
      else Round_loop pf rest s)"

definition Round :: "platform \<Rightarrow> Size \<Rightarrow> Size" where
  "Round pf s = Round_loop pf units s"

section \<open>The flag\<close>

text \<open>
  \<^verbatim>\<open>type sizeFlag struct { *Size }\<close>: the flag holds a pointer, and \<^verbatim>\<open>Set\<close> writes through
  it. The memory the pointers refer to is a store from addresses to sizes; \<^verbatim>\<open>Set\<close> takes the
  store and returns the error (\<open>None\<close> for \<^verbatim>\<open>nil\<close>) and the store after the call.
\<close>

type_synonym addr = nat

type_synonym store = "addr \<Rightarrow> Size"

record sizeFlag =
  Size_ptr :: addr

definition Get :: "sizeFlag \<Rightarrow> store \<Rightarrow> Size" where
  "Get f h = h (Size_ptr f)"

definition Set :: "platform \<Rightarrow> sizeFlag \<Rightarrow> string \<Rightarrow> store \<Rightarrow> error option \<times> store" where
  "Set pf f s h =
     (case Parse pf s of
        Inl err \<Rightarrow> (Some err, h)
      | Inr sz \<Rightarrow> (None, h(Size_ptr f := sz)))"

section \<open>The formatter as the specification describes it\<close>

text \<open>
  The reference definition of the canonical string, written from the specification: the
  ten conditions in their interleaved order, the first that holds selects the unit; the
  magnitude is the floating-point quotient of the value by the unit; a whole magnitude
  is rendered as an integer, any other one with exactly two decimal digits.
\<close>

definition unit_conditions :: "Size \<Rightarrow> (bool \<times> Size \<times> string) list" where
  "unit_conditions s =
     [(s mod Petabyte = 0, Petabyte, ''PB''), (Pebibyte \<le> s, Pebibyte, ''PiB''),
      (s mod Terabyte = 0, Terabyte, ''TB''), (Tebibyte \<le> s, Tebibyte, ''TiB''),
      (s mod Gigabyte = 0, Gigabyte, ''GB''), (Gibibyte \<le> s, Gibibyte, ''GiB''),
      (s mod Megabyte = 0, Megabyte, ''MB''), (Mebibyte \<le> s, Mebibyte, ''MiB''),
      (s mod Kilobyte = 0, Kilobyte, ''kB''), (Kibibyte \<le> s, Kibibyte, ''KiB'')]"

definition magnitude :: "Size \<Rightarrow> Size \<Rightarrow> rat" where
  "magnitude s u =
     round_binary64 (round_binary64 (of_nat (unat s)) / round_binary64 (of_nat (unat u)))"

definition render_magnitude :: "rat \<Rightarrow> string" where
  "render_magnitude q =
     (if q = of_int \<lfloor>q\<rfloor> then show_nat (nat \<lfloor>q\<rfloor>)
      else
        (let n = nat (round_half_even (q * 100))
         in show_nat (n div 100) @ ''.'' @ [digit_char (n div 10 mod 10), digit_char (n mod 10)]))"

definition String_spec :: "Size \<Rightarrow> string" where
  "String_spec s =
     (if s = 0 then ''0B''
      else
        case find fst (unit_conditions s) of
          None \<Rightarrow> show_nat (unat s) @ ''B''
        | Some (c, u, suffix) \<Rightarrow> render_magnitude (magnitude s u) @ suffix)"

section \<open>Vocabulary for the statements and proofs\<close>

text \<open>
  The number a string of decimal digits denotes, and the value of \<open>ds.fs\<close>: the digits
  \<open>ds\<close> before the point and \<open>fs\<close> after it.
\<close>

definition digits_value :: "string \<Rightarrow> nat" where
  "digits_value ds = foldl (\<lambda>a c. a * 10 + digit_val c) 0 ds"

definition decimal_value :: "string \<Rightarrow> string \<Rightarrow> rat" where
  "decimal_value ds fs = of_nat (digits_value (ds @ fs)) / 10 ^ length fs"

text \<open>What the second group of the regular expression can hold: nothing, or a point and digits.\<close>

definition is_fraction :: "string \<Rightarrow> bool" where
  "is_fraction fr = (fr = [] \<or> (hd fr = CHR ''.'' \<and> list_all is_digit (tl fr)))"

text \<open>One round of the scanner's loop on a decimal digit.\<close>

definition digit_step :: "scan \<Rightarrow> char \<Rightarrow> scan" where
  "digit_step st c =
     (if c = CHR ''0'' \<and> nd st = 0 then st\<lparr>sawdigits := True, dp := dp st - 1\<rparr>
      else st\<lparr>sawdigits := True, nd := nd st + 1, mantissa := mantissa st * 10 + digit_val c\<rparr>)"

text \<open>
  A size is a whole multiple of the unit its canonical string is written in: the unit the
  first condition that holds selects divides it (a decimal unit is selected only then),
  or no condition holds and the string counts bytes.
\<close>

definition unit_exact :: "Size \<Rightarrow> bool" where
  "unit_exact s =
     (case find fst (unit_conditions s) of
        None \<Rightarrow> True
      | Some (c, u, suffix) \<Rightarrow> s mod u = 0)"

text \<open>
  The magnitude the canonical string shows: the float64 quotient of the value by the unit,
  rounded to two decimals (a whole magnitude is its own rounding).
\<close>

definition printed_magnitude :: "Size \<Rightarrow> Size \<Rightarrow> rat" where
  "printed_magnitude s u = of_int (round_half_even (magnitude s u * 100)) / 100"

text \<open>
  The value of a decimal literal with an exponent, \<open>ds.fs\<close> followed by \<^verbatim>\<open>e\<close>, a sign \<open>sg\<close>
  (nothing, \<^verbatim>\<open>+\<close> or \<^verbatim>\<open>-\<close>) and the digits \<open>es\<close> of the exponent.
\<close>

definition scientific_value :: "string \<Rightarrow> string \<Rightarrow> string \<Rightarrow> string \<Rightarrow> rat" where
  "scientific_value ds fs sg es =
     decimal_value ds fs
     * 10 powi (if sg = [CHR ''-''] then - int (digits_value es) else int (digits_value es))"

text \<open>The factor \<^verbatim>\<open>Size(math.Round(float64(s)/float64(unit)))\<close> of \<open>Round\<close>.\<close>

definition round_quotient :: "platform \<Rightarrow> Size \<Rightarrow> Size \<Rightarrow> Size" where
  "round_quotient pf s u = f64_to_u64 pf (math_Round (f64_div (u64_to_f64 s) (u64_to_f64 u)))"

section \<open>Evaluating the model on concrete inputs\<close>

text \<open>
  A platform for the closed examples: conversions out of range give 0 and the Unicode
  mapping leaves the bytes as they are. The examples that name it have ASCII inputs.
\<close>

definition example_platform :: platform where
  "example_platform =
     \<lparr>u64_out_of_range = (\<lambda>f. 0), i64_out_of_range = (\<lambda>f. 0), unicode_lower = (\<lambda>s. s)\<rparr>"

section \<open>Facts about the unit constants\<close>

lemma unit_values:
  "Byte = 1" "Kilobyte = 1000" "Megabyte = 1000000" "Gigabyte = 1000000000"
  "Terabyte = 1000000000000" "Petabyte = 1000000000000000"
  "Kibibyte = 1024" "Mebibyte = 1048576" "Gibibyte = 1073741824"
  "Tebibyte = 1099511627776" "Pebibyte = 1125899906842624"
  by (simp_all add: Byte_def Kilobyte_def Megabyte_def Gigabyte_def Terabyte_def Petabyte_def
      Kibibyte_def Mebibyte_def Gibibyte_def Tebibyte_def Pebibyte_def)

lemma unat_unit_values:
  "unat Byte = 1" "unat Kilobyte = 1000" "unat Megabyte = 1000000"
  "unat Gigabyte = 1000000000" "unat Terabyte = 1000000000000"
  "unat Petabyte = 1000000000000000"
  "unat Kibibyte = 1024" "unat Mebibyte = 1048576" "unat Gibibyte = 1073741824"
  "unat Tebibyte = 1099511627776" "unat Pebibyte = 1125899906842624"
  by (simp_all add: unit_values)

lemma units_nonzero: "u \<in> set units \<Longrightarrow> 0 < unat u"
  by (auto simp: units_def unat_unit_values)

section \<open>Floor: the first unit not above the value, integer division\<close>

lemma unat_div_mult_exact:
  fixes s u :: Size
  shows "unat ((s div u) * u) = (unat s div unat u) * unat u"
proof -
  have "(unat s div unat u) * unat u \<le> unat s"
    by simp
  also have "unat s < 2 ^ 64"
    using unsigned_less [of s] by simp
  finally have "unat (s div u) * unat u < 2 ^ LENGTH(64)"
    by (simp add: unat_div)
  then have "unat ((s div u) * u) = unat (s div u) * unat u"
    by (metis unat_mult_lem)
  then show ?thesis
    by (simp add: unat_div)
qed

lemma Floor_loop_find:
  "Floor_loop us s = (case find (\<lambda>u. u \<le> s) us of None \<Rightarrow> s | Some u \<Rightarrow> (s div u) * u)"
  by (induction us) simp_all

lemma find_units_None_iff: "find (\<lambda>u. u \<le> s) units = None \<longleftrightarrow> s < 1000"
proof -
  have "find (\<lambda>u. u \<le> s) units = None \<longleftrightarrow> (\<forall>u \<in> set units. \<not> u \<le> s)"
    by (auto simp: find_None_iff)
  also have "\<dots> \<longleftrightarrow> s < 1000"
    by (auto simp: units_def unit_values word_le_nat_alt word_less_nat_alt)
  finally show ?thesis .
qed

text \<open>
  C6. For every Size \<open>s\<close>, \<open>Floor s\<close> is \<open>(s div u) * u\<close> for the first unit \<open>u\<close> of the
  descending list \<open>units\<close> with \<open>u \<le> s\<close>; the arithmetic is integer arithmetic that
  discards the remainder and never wraps (the byte count of the result is
  \<open>(unat s div unat u) * unat u\<close>); no unit is selected exactly when \<open>s < 1000\<close>, and then
  \<open>Floor s = s\<close>.
\<close>

theorem Floor_first_unit:
  "Floor s = (case find (\<lambda>u. u \<le> s) units of None \<Rightarrow> s | Some u \<Rightarrow> (s div u) * u)
   \<and> (case find (\<lambda>u. u \<le> s) units of None \<Rightarrow> unat (Floor s) = unat s
       | Some u \<Rightarrow> unat (Floor s) = (unat s div unat u) * unat u)
   \<and> ((find (\<lambda>u. u \<le> s) units = None) = (s < 1000))
   \<and> (if s < 1000 then Floor s = s else Floor s \<le> s)"
proof -
  have eq: "Floor s = (case find (\<lambda>u. u \<le> s) units of None \<Rightarrow> s | Some u \<Rightarrow> (s div u) * u)"
    by (simp add: Floor_def Floor_loop_find)
  have nat_eq: "(case find (\<lambda>u. u \<le> s) units of None \<Rightarrow> unat (Floor s) = unat s
       | Some u \<Rightarrow> unat (Floor s) = (unat s div unat u) * unat u)"
    by (simp add: eq unat_div_mult_exact split: option.split)
  have le: "Floor s \<le> s"
    using nat_eq by (auto simp: word_le_nat_alt split: option.splits)
  have small: "s < 1000 \<Longrightarrow> Floor s = s"
    using find_units_None_iff [of s] by (simp add: eq)
  show ?thesis
    using eq nat_eq find_units_None_iff [of s] le small by simp
qed

section \<open>Rules that evaluate the definitions on literals\<close>

lemma floorlog2_step: "0 < n \<Longrightarrow> floorlog 2 n = Suc (floorlog 2 (n div 2))"
  by (subst compute_floorlog) simp

lemma floorlog2_zero: "floorlog 2 0 = 0"
  by (simp add: floorlog_eq_zero_iff)

lemma floor_rat_numeral: "\<lfloor>numeral a / numeral b :: rat\<rfloor> = numeral a div numeral b"
  using floor_divide_of_int_eq [of "numeral a" "numeral b", where ?'a = rat] by simp

lemma floor_rat_neg_numeral:
  "\<lfloor>- (numeral a / numeral b) :: rat\<rfloor> = - numeral a div numeral b"
  using floor_divide_of_int_eq [of "- numeral a" "numeral b", where ?'a = rat] by simp

lemma ceiling_rat_numeral:
  "\<lceil>numeral a / numeral b :: rat\<rceil> = - (- numeral a div numeral b)"
  using floor_rat_neg_numeral [of a b] by (simp add: ceiling_def)

lemma ceiling_rat_neg_numeral:
  "\<lceil>- (numeral a / numeral b) :: rat\<rceil> = - (numeral a div numeral b)"
  using floor_rat_numeral [of a b] by (simp add: ceiling_def)

lemma floor_rat_one_numeral: "\<lfloor>1 / numeral b :: rat\<rfloor> = 1 div numeral b"
  using floor_divide_of_int_eq [of 1 "numeral b", where ?'a = rat] by simp

lemma ceiling_rat_one_numeral: "\<lceil>1 / numeral b :: rat\<rceil> = - (- 1 div numeral b)"
  using floor_divide_of_int_eq [of "- 1" "numeral b", where ?'a = rat]
  by (simp add: ceiling_def)

lemmas f64_eval = floor_rat_one_numeral ceiling_rat_one_numeral round_f64_def round_binary64_def ilog2_def round_half_even_def Let_def floorlog2_step
  floorlog2_zero floor_rat_numeral floor_rat_neg_numeral ceiling_rat_numeral
  ceiling_rat_neg_numeral u64_to_f64_def signed_inf_def f64_eq_def truncate_rat_def
  f64_to_u64_def f64_to_i64_def

lemmas char_eval = byte_def is_digit_def is_lower_def is_upper_def is_ascii_def lower_ascii_def
  digit_val_def is_hex_letter_def hex_letter_val_def char_of_def bit_0

lemmas parsefloat_eval = ParseFloat_def special_def special_inf_def readFloat_def scan_init_def
  read_exponent_def underscoreOK_def float_lit_value_def

lemmas accessor_defs = Kilobytes_def Megabytes_def Gigabytes_def Terabytes_def Petabytes_def
  Kibibytes_def Mebibytes_def Gibibytes_def Tebibytes_def Pebibytes_def

lemmas string_eval = show_nat.simps String_def format_def sprintf_2f_def show_int_def digit_char_def
  accessor_defs unit_values

lemmas parse_eval = Parse_def ToLower_def match_here_def parsefloat_eval char_eval f64_eval
  unit_values

section \<open>Round at the top of the range\<close>

text \<open>
  C9. Near the top of the unsigned 64-bit range \<open>Round\<close> wraps modulo \<open>2 ^ 64\<close>:
  \<open>Round (2 ^ 64 - 1) = 0\<close>, because \<open>float64 (2 ^ 64 - 1)\<close> is \<open>2 ^ 64\<close>, the quotient by
  \<open>Pebibyte\<close> is 16384, it rounds to 16384, and \<open>16384 * Pebibyte = 2 ^ 64\<close> is 0 in a
  \<open>uint64\<close>.
\<close>

theorem Round_max_wraps:
  "Round pf 18446744073709551615 = 0
   \<and> (18446744073709551615 :: Size) = 2 ^ 64 - 1
   \<and> u64_to_f64 18446744073709551615 = Finite (2 ^ 64)
   \<and> f64_div (Finite (2 ^ 64)) (u64_to_f64 Pebibyte) = Finite 16384
   \<and> math_Round (Finite 16384) = Finite 16384
   \<and> f64_to_u64 pf (Finite 16384) = 16384
   \<and> (16384 :: Size) * Pebibyte = 0"
proof -
  have "Round pf 18446744073709551615 = 0"
    by (simp add: Round_def units_def f64_eval unit_values)
  moreover have "(18446744073709551615 :: Size) = 2 ^ 64 - 1"
    by simp
  moreover have "u64_to_f64 18446744073709551615 = Finite (2 ^ 64)"
    by (simp add: f64_eval)
  moreover have "f64_div (Finite (2 ^ 64)) (u64_to_f64 Pebibyte) = Finite 16384"
    by (simp add: f64_eval unit_values)
  moreover have "math_Round (Finite 16384) = Finite 16384"
    by (simp add: f64_eval)
  moreover have "f64_to_u64 pf (Finite 16384) = 16384"
    by (simp add: f64_eval)
  moreover have "(16384 :: Size) * Pebibyte = 0"
    by (simp add: unit_values)
  ultimately show ?thesis
    by blast
qed

section \<open>The flag's Set\<close>

text \<open>
  C8. When the parser rejects the string, \<open>Set\<close> returns the parse error and leaves the
  store as it was; when the parser accepts it, \<open>Set\<close> returns no error, the flag's variable
  holds the parsed size and every other address keeps its value.
\<close>

theorem Set_error_keeps_value:
  "(\<forall>err. Parse pf s = Inl err \<longrightarrow> Set pf f s h = (Some err, h))
   \<and> (\<forall>sz. Parse pf s = Inr sz \<longrightarrow>
         fst (Set pf f s h) = None
         \<and> Get f (snd (Set pf f s h)) = sz
         \<and> (\<forall>a. a \<noteq> Size_ptr f \<longrightarrow> snd (Set pf f s h) a = h a))"
  by (simp add: Set_def Get_def)

theorem Set_error_keeps_value_witness:
  "Parse example_platform ''1xb'' = Inl (InvalidUnitSuffix ''xb'')
   \<and> Set example_platform \<lparr>Size_ptr = 3\<rparr> ''1xb'' (\<lambda>a. 7)
       = (Some (InvalidUnitSuffix ''xb''), (\<lambda>a. 7))
   \<and> Parse example_platform ''1KiB'' = Inr 1024
   \<and> fst (Set example_platform \<lparr>Size_ptr = 3\<rparr> ''1KiB'' (\<lambda>a. 7)) = None
   \<and> Get \<lparr>Size_ptr = 3\<rparr> (snd (Set example_platform \<lparr>Size_ptr = 3\<rparr> ''1KiB'' (\<lambda>a. 7))) = 1024
   \<and> snd (Set example_platform \<lparr>Size_ptr = 3\<rparr> ''1KiB'' (\<lambda>a. 7)) 4 = 7"
proof -
  have rej: "Parse example_platform ''1xb'' = Inl (InvalidUnitSuffix ''xb'')"
    by (simp add: parse_eval)
  have acc: "Parse example_platform ''1KiB'' = Inr 1024"
    by (simp add: parse_eval)
  have n: "(4 :: addr) \<noteq> Size_ptr \<lparr>Size_ptr = 3\<rparr>"
    by simp
  show ?thesis
    using Set_error_keeps_value [of example_platform "''1xb''" "\<lparr>Size_ptr = 3\<rparr>" "\<lambda>a. 7"]
      Set_error_keeps_value [of example_platform "''1KiB''" "\<lparr>Size_ptr = 3\<rparr>" "\<lambda>a. 7"]
      rej acc n
    by blast
qed

section \<open>Properties of the rounding\<close>

lemma two_powi_pos [simp]: "0 < (2::rat) powi e"
  by (simp add: power_int_def)

lemma two_powi_add: "(2::rat) powi (a + b) = 2 powi a * 2 powi b"
  by (simp add: power_int_add)

lemma two_powi_diff: "(2::rat) powi (a - b) = 2 powi a / 2 powi b"
  by (simp add: power_int_diff)

lemma two_powi_less_iff: "(2::rat) powi a < 2 powi b \<longleftrightarrow> a < b"
proof
  assume "(2::rat) powi a < 2 powi b"
  show "a < b"
  proof (rule ccontr)
    assume "\<not> a < b"
    then have "b \<le> a" by simp
    then have "(2::rat) powi b \<le> 2 powi a"
      by (intro power_int_increasing) simp_all
    with \<open>(2::rat) powi a < 2 powi b\<close> show False by simp
  qed
next
  assume "a < b"
  then show "(2::rat) powi a < 2 powi b"
    by (intro power_int_strict_increasing) simp_all
qed

lemma two_powi_le_iff: "(2::rat) powi a \<le> 2 powi b \<longleftrightarrow> a \<le> b"
  using two_powi_less_iff [of b a] by (auto simp: not_less [symmetric])

lemma ilog2_bounds:
  assumes "0 < x"
  shows "2 powi (ilog2 x) \<le> x" and "x < 2 powi (ilog2 x + 1)"
proof -
  have "2 powi (ilog2 x) \<le> x \<and> x < 2 powi (ilog2 x + 1)"
  proof (cases "1 \<le> x")
    case True
    define n where "n = nat \<lfloor>x\<rfloor>"
    define b where "b = floorlog 2 n"
    have n_pos: "0 < n"
      using True by (simp add: n_def)
    have fb: "2 ^ (b - 1) \<le> n" "n < 2 ^ b"
      using floorlog_bounds [of n 2] n_pos by (simp_all add: b_def)
    have b_pos: "0 < b"
      using n_pos by (simp add: b_def floorlog_def)
    have il: "ilog2 x = int b - 1"
      using True by (simp add: ilog2_def n_def b_def)
    have n_eq: "int n = \<lfloor>x\<rfloor>"
      using True by (simp add: n_def)
    have "of_int \<lfloor>x\<rfloor> \<le> x" "x < of_int \<lfloor>x\<rfloor> + 1"
      by linarith+
    then have nx: "of_nat n \<le> x" "x < of_nat n + 1"
      using n_eq by (metis of_int_of_nat_eq)+
    have "(2::rat) powi (int b - 1) = 2 ^ (b - 1)"
      using b_pos by (simp add: power_int_def nat_diff_distrib')
    moreover have "(2::rat) ^ (b - 1) \<le> of_nat n"
      using fb(1) by (metis of_nat_le_iff of_nat_numeral of_nat_power)
    moreover have "of_nat n + 1 \<le> (2::rat) ^ b"
    proof -
      have "n + 1 \<le> 2 ^ b" using fb(2) by simp
      then have "(of_nat (n + 1) :: rat) \<le> of_nat (2 ^ b)"
        by (simp only: of_nat_le_iff)
      then show ?thesis by simp
    qed
    moreover have "(2::rat) powi (int b - 1 + 1) = 2 ^ b"
      by simp
    ultimately show ?thesis
      using nx il by (metis order_less_le_trans order_trans)
  next
    case False
    define y where "y = 1 / x"
    define n where "n = nat (\<lceil>y\<rceil> - 1)"
    define b where "b = floorlog 2 n"
    have y1: "1 < y"
      using False assms by (simp add: y_def)
    have c2: "2 \<le> \<lceil>y\<rceil>"
      using y1 by (simp add: le_ceiling_iff)
    have n_pos: "0 < n"
      using c2 by (simp add: n_def)
    have fb: "2 ^ (b - 1) \<le> n" "n < 2 ^ b"
      using floorlog_bounds [of n 2] n_pos by (simp_all add: b_def)
    have b_pos: "0 < b"
      using n_pos by (simp add: b_def floorlog_def)
    have il: "ilog2 x = - int b"
      using False by (simp add: ilog2_def n_def b_def y_def)
    have n_eq: "int n = \<lceil>y\<rceil> - 1"
      using c2 by (simp add: n_def)
    have ny: "of_nat n < y" "y \<le> of_nat n + 1"
    proof -
      have "of_int (\<lceil>y\<rceil> - 1) < y"
        by (metis ceiling_less_iff diff_less_eq less_add_one of_int_1_less_iff less_ceiling_iff
            not_less order_refl zle_diff1_eq)
      then show "of_nat n < y"
        using n_eq by (metis of_int_of_nat_eq)
      have "y \<le> of_int \<lceil>y\<rceil>"
        by simp
      also have "of_int \<lceil>y\<rceil> = (of_nat n :: rat) + 1"
        using n_eq by (metis add.commute diff_add_cancel of_int_1 of_int_add of_int_of_nat_eq add.commute)
      finally show "y \<le> of_nat n + 1" .
    qed
    have up: "y \<le> 2 ^ b"
    proof -
      have "n + 1 \<le> 2 ^ b" using fb(2) by simp
      then have "(of_nat (n + 1) :: rat) \<le> of_nat (2 ^ b)"
        by (simp only: of_nat_le_iff)
      then show ?thesis using ny(2) by simp
    qed
    have lo: "2 ^ (b - 1) < y"
    proof -
      have "(2::rat) ^ (b - 1) = of_nat (2 ^ (b - 1))"
        by simp
      also have "\<dots> \<le> of_nat n"
        using fb(1) by (simp only: of_nat_le_iff)
      also have "\<dots> < y"
        by (rule ny(1))
      finally show ?thesis .
    qed
    have x_eq: "x = 1 / y"
      by (simp add: y_def)
    have "(2::rat) powi (- int b) = 1 / 2 ^ b"
      by (simp add: power_int_minus_divide)
    moreover have "1 / 2 ^ b \<le> x"
      using up y1 by (simp add: x_eq field_simps)
    moreover have "(2::rat) powi (- int b + 1) = 1 / 2 ^ (b - 1)"
    proof -
      have "- int b + 1 = - int (b - 1)"
        using b_pos by simp
      then show ?thesis 
        by (simp only: power_int_minus_divide power_int_of_nat)
    qed
    moreover have "x < 1 / 2 ^ (b - 1)"
      using lo y1 by (simp add: x_eq field_simps)
    ultimately show ?thesis
      using il by simp
  qed
  then show "2 powi (ilog2 x) \<le> x" and "x < 2 powi (ilog2 x + 1)"
    by simp_all
qed

lemma ilog2_unique:
  assumes "0 < x" "2 powi e \<le> x" "x < 2 powi (e + 1)"
  shows "ilog2 x = e"
proof -
  have "(2::rat) powi (ilog2 x) < 2 powi (e + 1)"
    using ilog2_bounds(1) [OF assms(1)] assms(3) by simp
  then have a: "ilog2 x < e + 1"
    by (simp only: two_powi_less_iff)
  have "(2::rat) powi e < 2 powi (ilog2 x + 1)"
    using ilog2_bounds(2) [OF assms(1)] assms(2) by simp
  then have b: "e < ilog2 x + 1"
    by (simp only: two_powi_less_iff)
  show ?thesis
    using a b by simp
qed



lemma round_half_even_of_int [simp]: "round_half_even (of_int n) = n"
  by (simp add: round_half_even_def)

lemma round_half_even_error: "\<bar>of_int (round_half_even x) - x\<bar> \<le> 1 / 2"
proof -
  have "of_int \<lfloor>x\<rfloor> \<le> x" "x < of_int \<lfloor>x\<rfloor> + 1"
    by linarith+
  then show ?thesis
    by (auto simp: round_half_even_def Let_def)
qed

lemma round_half_even_le: "x \<le> of_int k \<Longrightarrow> round_half_even x \<le> k"
proof -
  assume a: "x \<le> of_int k"
  have fl: "of_int \<lfloor>x\<rfloor> \<le> x" "x < of_int \<lfloor>x\<rfloor> + 1"
    by linarith+
  have "\<lfloor>x\<rfloor> \<le> k"
    using a by (simp add: floor_le_iff)
  moreover have "\<lfloor>x\<rfloor> = k \<Longrightarrow> x = of_int k"
    using a fl by simp
  ultimately show ?thesis
    by (cases "\<lfloor>x\<rfloor> = k") (auto simp: round_half_even_def Let_def)
qed

lemma round_half_even_ge: "of_int k \<le> x \<Longrightarrow> k \<le> round_half_even x"
proof -
  assume a: "of_int k \<le> x"
  have "k \<le> \<lfloor>x\<rfloor>"
    using a by (simp add: le_floor_iff)
  then show ?thesis
    by (auto simp: round_half_even_def Let_def)
qed

text \<open>A value with at most 53 significant bits and an exponent in range is its own rounding.\<close>

lemma round_binary64_exact:
  assumes "\<bar>m\<bar> < 2 ^ 53" "- 1074 \<le> j"
  shows "round_binary64 (of_int m * 2 powi j) = of_int m * 2 powi j"
proof (cases "m = 0")
  case True
  then show ?thesis by (simp add: round_binary64_def)
next
  case False
  define x :: rat where "x = of_int m * 2 powi j"
  define e where "e = max (ilog2 \<bar>x\<bar>) (- 1022) - 52"
  have x_nz: "x \<noteq> 0"
    using False by (simp add: x_def)
  have ax: "\<bar>x\<bar> = of_int \<bar>m\<bar> * 2 powi j"
    by (simp add: x_def abs_mult)
  have ej: "e \<le> j"
  proof (cases "- 1022 \<le> ilog2 \<bar>x\<bar>")
    case True
    have "2 powi (ilog2 \<bar>x\<bar>) \<le> \<bar>x\<bar>"
      using ilog2_bounds(1) [of "\<bar>x\<bar>"] x_nz by simp
    also have "\<bar>x\<bar> < 2 ^ 53 * 2 powi j"
    proof -
      have "(of_int \<bar>m\<bar> :: rat) < of_int (2 ^ 53)"
        using assms(1) by (simp only: of_int_less_iff)
      then show ?thesis
        by (simp add: ax)
    qed
    also have "(2::rat) ^ 53 * 2 powi j = 2 powi (53 + j)"
      by (simp add: two_powi_add)
    finally have "ilog2 \<bar>x\<bar> < 53 + j"
      by (simp only: two_powi_less_iff)
    then show ?thesis
      using True by (simp add: e_def)
  next
    case False
    then show ?thesis
      using assms(2) by (simp add: e_def)
  qed
  have "x / 2 powi e = of_int m * 2 powi (j - e)"
    by (simp add: x_def two_powi_diff)
  also have "(2::rat) powi (j - e) = of_int (2 ^ nat (j - e))"
    using ej by (simp add: power_int_def)
  finally have z: "x / 2 powi e = of_int (m * 2 ^ nat (j - e))"
    by simp
  have "round_binary64 x = of_int (round_half_even (x / 2 powi e)) * 2 powi e"
    using x_nz by (simp add: round_binary64_def e_def Let_def)
  also have "\<dots> = x / 2 powi e * 2 powi e"
    by (simp only: z round_half_even_of_int)
  also have "\<dots> = x"
    by simp
  finally show ?thesis
    by (simp add: x_def)
qed

lemma round_binary64_of_nat:
  assumes "n < 2 ^ 53"
  shows "round_binary64 (of_nat n) = of_nat n"
  using round_binary64_exact [of "int n" 0] assms by simp

text \<open>Rounding never crosses a power of two from below.\<close>

lemma round_binary64_le_pow2:
  assumes "0 < x" "x \<le> 2 powi k" "0 \<le> k"
  shows "0 \<le> round_binary64 x \<and> round_binary64 x \<le> 2 powi k"
proof -
  define L where "L = ilog2 x"
  define E where "E = max L (- 1022)"
  define e where "e = E - 52"
  define z where "z = x / 2 powi e"
  have r: "round_binary64 x = of_int (round_half_even z) * 2 powi e"
    using assms(1) by (simp add: round_binary64_def Let_def z_def e_def E_def L_def)
  have z_pos: "0 < z"
    using assms(1) by (simp add: z_def)
  have nonneg: "0 \<le> round_half_even z"
    using round_half_even_ge [of 0 z] z_pos by simp
  have Lk: "L \<le> k"
  proof -
    have "2 powi L \<le> x"
      using ilog2_bounds(1) [OF assms(1)] by (simp add: L_def)
    then have "(2::rat) powi L \<le> 2 powi k"
      using assms(2) by simp
    then show ?thesis
      by (simp only: two_powi_le_iff)
  qed
  have Ek: "E \<le> k"
    using Lk assms(3) by (simp add: E_def)
  show ?thesis
  proof (cases "E = k")
    case True
    then have "L = k"
      using assms(3) by (simp add: E_def max_def split: if_splits)
    then have "2 powi k \<le> x"
      using ilog2_bounds(1) [OF assms(1)] by (simp add: L_def)
    then have xk: "x = 2 powi k"
      using assms(2) by simp
    have "x = of_int 1 * 2 powi k"
      by (simp add: xk)
    then have "round_binary64 x = x"
      using round_binary64_exact [of 1 k] assms(3) by simp
    then show ?thesis
      by (simp add: xk)
  next
    case False
    then have E1: "E + 1 \<le> k"
      using Ek by simp
    have "x < 2 powi (L + 1)"
      using ilog2_bounds(2) [OF assms(1)] by (simp add: L_def)
    also have "(2::rat) powi (L + 1) \<le> 2 powi (E + 1)"
      by (simp only: two_powi_le_iff) (simp add: E_def)
    finally have "z < 2 powi (E + 1) / 2 powi e"
      by (simp add: z_def divide_strict_right_mono)
    also have "(2::rat) powi (E + 1) / 2 powi e = 2 powi 53"
      by (simp add: e_def flip: two_powi_diff)
    finally have "z \<le> of_int (2 ^ 53)"
      by simp
    then have "round_half_even z \<le> 2 ^ 53"
      by (rule round_half_even_le)
    then have "(of_int (round_half_even z) :: rat) \<le> of_int (2 ^ 53)"
      by (simp only: of_int_le_iff)
    then have "(of_int (round_half_even z) :: rat) * 2 powi e \<le> 2 powi 53 * 2 powi e"
      by (simp add: mult_right_mono)
    also have "(2::rat) powi 53 * 2 powi e = 2 powi (53 + e)"
      by (simp only: two_powi_add)
    also have "(2::rat) powi (53 + e) = 2 powi (E + 1)"
    proof -
      have "53 + e = E + 1"
        by (simp add: e_def)
      then show ?thesis
        by (simp only:)
    qed
    also have "\<dots> \<le> 2 powi k"
      using E1 by (simp only: two_powi_le_iff)
    finally have "round_binary64 x \<le> 2 powi k"
      by (simp add: r)
    moreover have "0 \<le> round_binary64 x"
      using nonneg by (simp add: r)
    ultimately show ?thesis
      by simp
  qed
qed

text \<open>Between 1 and 2 the rounding error is at most half a unit in the last place.\<close>

lemma round_binary64_error_1_2:
  assumes "1 \<le> x" "x < 2"
  shows "\<bar>round_binary64 x - x\<bar> \<le> 1 / 2 ^ 53"
proof -
  have il: "ilog2 x = 0"
    using assms by (intro ilog2_unique) simp_all
  have ax: "\<bar>x\<bar> = x"
    using assms by simp
  have "round_binary64 x = of_int (round_half_even (x / 2 powi (- 52))) * 2 powi (- 52)"
    using assms by (simp add: round_binary64_def il ax Let_def)
  then have r: "round_binary64 x = of_int (round_half_even (x * 2 ^ 52)) / 2 ^ 52"
    by (simp add: power_int_minus_divide)
  define d where "d = of_int (round_half_even (x * 2 ^ 52)) - x * 2 ^ 52"
  have d: "\<bar>d\<bar> \<le> 1 / 2"
    unfolding d_def by (rule round_half_even_error)
  have eq: "round_binary64 x - x = d / 2 ^ 52"
    by (simp add: r d_def diff_divide_distrib)
  have "\<bar>round_binary64 x - x\<bar> = \<bar>d / 2 ^ 52\<bar>"
    by (simp only: eq)
  also have "\<dots> = \<bar>d\<bar> / 2 ^ 52"
    by (simp only: abs_divide power_abs abs_numeral)
  also have "\<dots> \<le> (1 / 2) / 2 ^ 52"
    using d by (intro divide_right_mono) simp_all
  finally show ?thesis
    by simp
qed

lemma round_f64_finite:
  assumes "\<bar>round_binary64 x\<bar> < 2 powi 1024"
  shows "round_f64 x = Finite (round_binary64 x)"
  using assms by (auto simp: round_f64_def Let_def)

section \<open>String against the reference definition\<close>

declare show_nat.simps [simp del]

declare of_nat_unat [simp del]

lemma is_digit_digit_char: "d < 10 \<Longrightarrow> is_digit (digit_char d)"
proof -
  assume "d < 10"
  then have "d \<in> {0, 1, 2, 3, 4, 5, 6, 7, 8, 9}"
    by auto
  then show ?thesis
    by (auto simp: digit_char_def is_digit_def byte_def)
qed

lemma digit_val_digit_char: "d < 10 \<Longrightarrow> digit_val (digit_char d) = d"
proof -
  assume "d < 10"
  then have "d \<in> {0, 1, 2, 3, 4, 5, 6, 7, 8, 9}"
    by auto
  then show ?thesis
    by (auto simp: digit_char_def digit_val_def byte_def)
qed

lemma show_nat_digits: "list_all is_digit (show_nat n)"
proof (induction n rule: show_nat.induct)
  case (1 n)
  show ?case
  proof (cases "n < 10")
    case True
    then show ?thesis
      by (subst show_nat.simps) (simp add: is_digit_digit_char)
  next
    case False
    then show ?thesis
      using 1 by (subst show_nat.simps) (simp add: is_digit_digit_char)
  qed
qed

lemma show_nat_nonempty: "show_nat n \<noteq> []"
  by (subst show_nat.simps) simp

lemma is_digit_not_dot: "is_digit c \<Longrightarrow> c \<noteq> CHR ''.''"
  by (auto simp: is_digit_def byte_def)

lemma show_nat_no_dot: "CHR ''.'' \<notin> set (show_nat n)"
  using show_nat_digits [of n] is_digit_not_dot by (auto simp: list_all_iff)

lemma u64_to_f64_value:
  "u64_to_f64 s = Finite (round_binary64 (of_nat (unat s)))
   \<and> 0 \<le> round_binary64 (of_nat (unat s))
   \<and> round_binary64 (of_nat (unat s)) \<le> 2 ^ 64"
proof (cases "unat s = 0")
  case True
  then show ?thesis
    by (simp add: u64_to_f64_def round_f64_def round_binary64_def)
next
  case False
  define x :: rat where "x = of_nat (unat s)"
  have "unat s < 2 ^ 64"
    using unsigned_less [of s] by simp
  then have "(of_nat (unat s) :: rat) < of_nat (2 ^ 64)"
    by (simp only: of_nat_less_iff)
  then have le: "x \<le> 2 powi 64"
    by (simp add: x_def)
  have pos: "0 < x"
    using False by (simp add: x_def)
  have b: "0 \<le> round_binary64 x \<and> round_binary64 x \<le> 2 powi 64"
    using round_binary64_le_pow2 [OF pos le] by simp
  then have "\<bar>round_binary64 x\<bar> < 2 powi 1024"
    by simp
  then have "round_f64 x = Finite (round_binary64 x)"
    by (rule round_f64_finite)
  then show ?thesis
    using b by (simp add: u64_to_f64_def x_def)
qed

lemma quotient_value:
  assumes "512 \<le> unat u" "unat u < 2 ^ 53"
  shows "f64_div (u64_to_f64 s) (u64_to_f64 u) = Finite (magnitude s u)
         \<and> 0 \<le> magnitude s u \<and> magnitude s u \<le> 2 ^ 55"
proof -
  define a :: rat where "a = round_binary64 (of_nat (unat s))"
  define b :: rat where "b = of_nat (unat u)"
  have fa: "u64_to_f64 s = Finite a" and a: "0 \<le> a" "a \<le> 2 ^ 64"
    using u64_to_f64_value [of s] by (simp_all add: a_def)
  have rb: "round_binary64 (of_nat (unat u)) = b"
    using round_binary64_of_nat [OF assms(2)] by (simp add: b_def)
  have fb: "u64_to_f64 u = Finite b"
    using u64_to_f64_value [of u] by (simp add: rb)
  have "(of_nat 512 :: rat) \<le> of_nat (unat u)"
    using assms(1) by (simp only: of_nat_le_iff)
  then have b: "512 \<le> b"
    by (simp add: b_def)
  have m: "magnitude s u = round_binary64 (a / b)"
    by (simp add: magnitude_def a_def rb)
  have q: "0 \<le> a / b" "a / b \<le> 2 powi 55"
  proof -
    show "0 \<le> a / b"
      using a b by simp
    have "a / b \<le> 2 ^ 64 / 512"
      using a b by (intro frac_le) simp_all
    then show "a / b \<le> 2 powi 55"
      by simp
  qed
  have mb: "0 \<le> round_binary64 (a / b) \<and> round_binary64 (a / b) \<le> 2 powi 55"
  proof (cases "a / b = 0")
    case True
    then show ?thesis
      by (simp add: round_binary64_def)
  next
    case False
    with q(1) have "0 < a / b"
      by (simp only: order_less_le) simp
    then show ?thesis
      using round_binary64_le_pow2 [of "a / b" 55] q(2) by simp
  qed
  then have "\<bar>round_binary64 (a / b)\<bar> < 2 powi 1024"
    by simp
  then have "round_f64 (a / b) = Finite (round_binary64 (a / b))"
    by (rule round_f64_finite)
  moreover have "b \<noteq> 0"
    using b by simp
  ultimately have "f64_div (u64_to_f64 s) (u64_to_f64 u) = Finite (magnitude s u)"
    by (simp add: fa fb m)
  then show ?thesis
    using mb by (simp add: m)
qed

lemma format_magnitude:
  assumes "0 \<le> q" "q \<le> 2 ^ 55"
  shows "format pf (Finite q) suffix = render_magnitude q @ suffix"
proof (cases "q = of_int \<lfloor>q\<rfloor>")
  case True
  have fl: "0 \<le> \<lfloor>q\<rfloor>"
    using assms(1) by simp
  have "q < 2 ^ 63"
    using assms(2) by simp
  then have "f64_to_i64 pf (Finite q) = \<lfloor>q\<rfloor>"
    using assms(1) by (simp add: f64_to_i64_def truncate_rat_def)
  moreover have "f64_eq (math_Floor (Finite q)) (Finite q)"
    using True by (simp add: f64_eq_def)
  ultimately show ?thesis
    using True fl by (simp add: format_def render_magnitude_def show_int_def)
next
  case False
  then have "\<not> f64_eq (math_Floor (Finite q)) (Finite q)"
    by (auto simp: f64_eq_def)
  moreover have "\<bar>q\<bar> = q" "\<not> q < 0"
    using assms(1) by simp_all
  ultimately show ?thesis
    using False by (simp add: format_def render_magnitude_def sprintf_2f_def Let_def)
qed

lemma format_quotient:
  assumes "512 \<le> unat u" "unat u < 2 ^ 53"
  shows "format pf (f64_div (u64_to_f64 s) (u64_to_f64 u)) suffix
         = render_magnitude (magnitude s u) @ suffix"
  using quotient_value [OF assms, of s] format_magnitude [of "magnitude s u" pf suffix]
  by simp

lemma String_refines_spec: "String pf s = String_spec s"
  by (simp add: String_def String_spec_def unit_conditions_def accessor_defs
      format_quotient unat_unit_values)

text \<open>
  C2. For every Size, \<open>String\<close> is the reference definition: \<open>0\<close> gives \<open>0B\<close>; otherwise
  the ten conditions are checked in the interleaved order and the first that holds selects
  unit and suffix, and with no condition the byte count is printed before \<open>B\<close>. The
  magnitude of a selected unit is the float64 quotient of value and unit; a whole
  magnitude is printed as its digits, with no decimal point, any other one as digits, a
  point and exactly two digits.
\<close>

theorem String_is_reference:
  "String pf s = String_spec s
   \<and> (\<forall>c u suffix. find fst (unit_conditions s) = Some (c, u, suffix) \<longrightarrow>
         f64_div (u64_to_f64 s) (u64_to_f64 u) = Finite (magnitude s u))
   \<and> (\<forall>q. q = of_int \<lfloor>q\<rfloor> \<longrightarrow>
         render_magnitude q = show_nat (nat \<lfloor>q\<rfloor>) \<and> list_all is_digit (render_magnitude q))
   \<and> (\<forall>q. q \<noteq> of_int \<lfloor>q\<rfloor> \<longrightarrow>
         (\<exists>ds a b. render_magnitude q = ds @ [CHR ''.'', a, b]
            \<and> ds \<noteq> [] \<and> list_all is_digit ds \<and> is_digit a \<and> is_digit b))"
proof -
  have quot: "f64_div (u64_to_f64 s) (u64_to_f64 u) = Finite (magnitude s u)"
    if "find fst (unit_conditions s) = Some (c, u, suffix)" for c u suffix
  proof -
    have "(c, u, suffix) \<in> set (unit_conditions s)"
      using that by (auto simp: find_Some_iff in_set_conv_nth)
    then have "512 \<le> unat u \<and> unat u < 2 ^ 53"
      by (auto simp: unit_conditions_def unat_unit_values)
    then show ?thesis
      using quotient_value [of u s] by simp
  qed
  have whole: "render_magnitude q = show_nat (nat \<lfloor>q\<rfloor>) \<and> list_all is_digit (render_magnitude q)"
    if "q = of_int \<lfloor>q\<rfloor>" for q
    using that by (simp add: render_magnitude_def show_nat_digits)
  have frac: "\<exists>ds a b. render_magnitude q = ds @ [CHR ''.'', a, b]
            \<and> ds \<noteq> [] \<and> list_all is_digit ds \<and> is_digit a \<and> is_digit b"
    if "q \<noteq> of_int \<lfloor>q\<rfloor>" for q
  proof -
    define n where "n = nat (round_half_even (q * 100))"
    have "render_magnitude q
          = show_nat (n div 100) @ [CHR ''.'', digit_char (n div 10 mod 10), digit_char (n mod 10)]"
      using that by (simp add: render_magnitude_def n_def Let_def)
    moreover have "is_digit (digit_char (n div 10 mod 10))" "is_digit (digit_char (n mod 10))"
      by (simp_all add: is_digit_digit_char)
    ultimately show ?thesis
      using show_nat_digits show_nat_nonempty by blast
  qed
  show ?thesis
    using String_refines_spec quot whole frac by blast
qed

theorem String_is_reference_witness:
  "String example_platform 1025 = ''1.00KiB''
   \<and> f64_div (u64_to_f64 1025) (u64_to_f64 Kibibyte) = Finite (magnitude 1025 Kibibyte)
   \<and> magnitude 1025 Kibibyte = 1025 / 1024
   \<and> render_magnitude 3 = ''3''
   \<and> (\<exists>ds a b. render_magnitude (1025 / 1024) = ds @ [CHR ''.'', a, b]
         \<and> ds \<noteq> [] \<and> list_all is_digit ds \<and> is_digit a \<and> is_digit b)"
proof -
  have sel: "find fst (unit_conditions 1025) = Some (True, Kibibyte, ''KiB'')"
    by (simp add: unit_conditions_def unit_values)
  have mag: "magnitude 1025 Kibibyte = 1025 / 1024"
    by (simp add: magnitude_def f64_eval unit_values)
  have spec: "String_spec 1025 = ''1.00KiB''"
    by (simp add: String_spec_def sel mag render_magnitude_def f64_eval show_nat.simps
        digit_char_def)
  have w: "(3::rat) = of_int \<lfloor>3::rat\<rfloor>"
    by simp
  have nw: "(1025 / 1024 :: rat) \<noteq> of_int \<lfloor>1025 / 1024 :: rat\<rfloor>"
    by (simp add: f64_eval)
  have r3: "show_nat (nat \<lfloor>3::rat\<rfloor>) = ''3''"
    by (simp add: show_nat.simps digit_char_def)
  show ?thesis
    using String_is_reference [of example_platform 1025] sel mag spec w nw r3
    by (metis (no_types, lifting))
qed

section \<open>ParseFloat on decimal numerals, Parse on numerals with a unit\<close>

lemma is_digit_simps:
  assumes "is_digit c"
  shows "c \<noteq> CHR ''_''" "c \<noteq> CHR ''.''" "c \<noteq> CHR ''+''" "c \<noteq> CHR ''-''"
    "c \<noteq> CHR ''i''" "c \<noteq> CHR ''I''" "c \<noteq> CHR ''n''" "c \<noteq> CHR ''N''"
    "\<not> is_upper c" "\<not> is_lower c" "lower_ascii c = c" "is_ascii c"
  using assms
  by (auto simp: is_digit_def is_upper_def is_lower_def lower_ascii_def is_ascii_def byte_def)

lemma scan_mantissa_digits:
  assumes "list_all is_digit ds"
  shows "scan_mantissa False st (ds @ rest) = scan_mantissa False (foldl digit_step st ds) rest"
  using assms
proof (induction ds arbitrary: st)
  case Nil
  then show ?case by simp
next
  case (Cons c ds)
  have c: "is_digit c" "c \<noteq> CHR ''_''" "c \<noteq> CHR ''.''"
    using Cons.prems is_digit_simps by simp_all
  have "scan_mantissa False st ((c # ds) @ rest) = scan_mantissa False (digit_step st c) (ds @ rest)"
    using c by (simp add: digit_step_def)
  then show ?case
    using Cons by simp
qed

lemma foldl_digit_step_flags:
  "sawdot (foldl digit_step st ds) = sawdot st"
  "underscores (foldl digit_step st ds) = underscores st"
  "sawdigits (foldl digit_step st ds) = (sawdigits st \<or> ds \<noteq> [])"
  by (induction ds arbitrary: st; simp add: digit_step_def)+

lemma foldl_digit_step_value_aux:
  assumes "nd st = 0 \<longrightarrow> mantissa st = 0" "list_all is_digit ds"
  shows "mantissa (foldl digit_step st ds) = foldl (\<lambda>a c. a * 10 + digit_val c) (mantissa st) ds
    \<and> (nd (foldl digit_step st ds) = 0 \<longrightarrow> mantissa (foldl digit_step st ds) = 0)
    \<and> dp (foldl digit_step st ds) - int (nd (foldl digit_step st ds))
        = dp st - int (nd st) - int (length ds)"
  using assms
proof (induction ds arbitrary: st)
  case Nil
  then show ?case by simp
next
  case (Cons c ds)
  have inv: "nd (digit_step st c) = 0 \<longrightarrow> mantissa (digit_step st c) = 0"
    using Cons.prems(1) by (simp add: digit_step_def)
  have ds: "list_all is_digit ds"
    using Cons.prems(2) by simp
  have m: "mantissa (digit_step st c) = mantissa st * 10 + digit_val c"
    using Cons.prems(1) by (auto simp: digit_step_def digit_val_def)
  have d: "dp (digit_step st c) - int (nd (digit_step st c)) = dp st - int (nd st) - 1"
    by (simp add: digit_step_def)
  show ?case
    using Cons.IH [OF inv ds] m d by auto
qed



lemma foldl_digit_step_value:
  assumes "nd st = 0 \<longrightarrow> mantissa st = 0" "list_all is_digit ds"
  shows "mantissa (foldl digit_step st ds) = foldl (\<lambda>a c. a * 10 + digit_val c) (mantissa st) ds"
    and "nd (foldl digit_step st ds) = 0 \<longrightarrow> mantissa (foldl digit_step st ds) = 0"
    and "dp (foldl digit_step st ds) - int (nd (foldl digit_step st ds))
        = dp st - int (nd st) - int (length ds)"
  using foldl_digit_step_value_aux [OF assms] by blast+

lemma readFloat_unsigned_decimal:
  assumes "list_all (\<lambda>c. c \<noteq> CHR ''+'' \<and> c \<noteq> CHR ''-'' \<and> lower_ascii c \<noteq> CHR ''x'') s"
  shows "readFloat s =
    (case scan_mantissa False scan_init s of
       (st, s3) \<Rightarrow>
         if \<not> sawdigits st then None
         else
           (case read_exponent False s3 of
              None \<Rightarrow> None
            | Some (e, us, s4) \<Rightarrow>
                if (underscores st \<or> us) \<and> \<not> underscoreOK (take (length s - length s4) s)
                then None
                else Some (FloatLit False False (mantissa st)
                       (if mantissa st \<noteq> 0
                        then (if sawdot st then dp st else int (nd st)) + e - int (nd st)
                        else 0),
                     length s - length s4)))"
proof -
  have neg: "(case s of c # t \<Rightarrow> c = CHR ''-'' | [] \<Rightarrow> False) = False"
    using assms by (cases s) auto
  have s1: "(case s of c # t \<Rightarrow> if c = CHR ''+'' \<or> c = CHR ''-'' then t else s | [] \<Rightarrow> s) = s"
    using assms by (cases s) auto
  have hex: "(case s of c0 # c1 # c2 # t \<Rightarrow> c0 = CHR ''0'' \<and> lower_ascii c1 = CHR ''x''
                 | _ \<Rightarrow> False) = False"
    using assms by (auto split: list.splits)
  show ?thesis
    unfolding readFloat_def neg s1
    by (simp only: Let_def hex if_False)
qed

lemma digits_value_append:
  "digits_value (ds @ fs) = foldl (\<lambda>a c. a * 10 + digit_val c) (digits_value ds) fs"
  by (simp add: digits_value_def)

lemma scan_decimal_nodot:
  assumes "list_all is_digit ds"
  shows "\<exists>st. scan_mantissa False scan_init ds = (st, [])
      \<and> mantissa st = digits_value ds \<and> \<not> sawdot st \<and> \<not> underscores st
      \<and> sawdigits st = (ds \<noteq> [])"
proof -
  define st where "st = foldl digit_step scan_init ds"
  have "scan_mantissa False scan_init (ds @ []) = scan_mantissa False st []"
    unfolding st_def by (rule scan_mantissa_digits [OF assms])
  then have "scan_mantissa False scan_init ds = (st, [])"
    by simp
  moreover have "mantissa st = digits_value ds"
    using foldl_digit_step_value(1) [of scan_init ds] assms
    by (simp add: st_def digits_value_def scan_init_def)
  moreover have "\<not> sawdot st" "\<not> underscores st" "sawdigits st = (ds \<noteq> [])"
    by (simp_all add: st_def foldl_digit_step_flags scan_init_def)
  ultimately show ?thesis
    by blast
qed

lemma scan_decimal_dot:
  assumes "list_all is_digit ds" "list_all is_digit fs"
  shows "\<exists>st. scan_mantissa False scan_init (ds @ CHR ''.'' # fs) = (st, [])
      \<and> mantissa st = digits_value (ds @ fs) \<and> sawdot st \<and> \<not> underscores st
      \<and> sawdigits st = (ds @ fs \<noteq> [])
      \<and> dp st - int (nd st) = - int (length fs)"
proof -
  define st1 where "st1 = foldl digit_step scan_init ds"
  define st2 where "st2 = st1\<lparr>sawdot := True, dp := int (nd st1)\<rparr>"
  define st where "st = foldl digit_step st2 fs"
  have f1: "\<not> sawdot st1" "\<not> underscores st1" "sawdigits st1 = (ds \<noteq> [])"
    by (simp_all add: st1_def foldl_digit_step_flags scan_init_def)
  have v1: "mantissa st1 = digits_value ds" "nd st1 = 0 \<longrightarrow> mantissa st1 = 0"
    using foldl_digit_step_value(1,2) [of scan_init ds] assms(1)
    by (simp_all add: st1_def digits_value_def scan_init_def)
  have "scan_mantissa False scan_init (ds @ CHR ''.'' # fs)
        = scan_mantissa False st1 (CHR ''.'' # fs)"
    unfolding st1_def by (rule scan_mantissa_digits [OF assms(1)])
  also have "\<dots> = scan_mantissa False st2 fs"
    using f1(1) by (simp add: st2_def)
  also have "\<dots> = scan_mantissa False st2 (fs @ [])"
    by simp
  also have "\<dots> = scan_mantissa False st []"
    unfolding st_def by (rule scan_mantissa_digits [OF assms(2)])
  finally have sc: "scan_mantissa False scan_init (ds @ CHR ''.'' # fs) = (st, [])"
    by simp
  have inv2: "nd st2 = 0 \<longrightarrow> mantissa st2 = 0"
    using v1(2) by (simp add: st2_def)
  have v: "mantissa st = foldl (\<lambda>a c. a * 10 + digit_val c) (mantissa st2) fs"
      "dp st - int (nd st) = dp st2 - int (nd st2) - int (length fs)"
    using foldl_digit_step_value(1,3) [OF inv2 assms(2)] by (simp_all add: st_def)
  have "mantissa st = digits_value (ds @ fs)"
    using v(1) v1(1) by (simp add: digits_value_append st2_def)
  moreover have "dp st - int (nd st) = - int (length fs)"
    using v(2) by (simp add: st2_def)
  moreover have "sawdot st" "\<not> underscores st" "sawdigits st = (ds @ fs \<noteq> [])"
    using f1 by (auto simp: st_def foldl_digit_step_flags st2_def)
  ultimately show ?thesis
    using sc by blast
qed

lemma special_None:
  assumes "s \<noteq> [] \<Longrightarrow> hd s \<notin> {CHR ''+'', CHR ''-'', CHR ''i'', CHR ''I'', CHR ''n'', CHR ''N''}"
  shows "special s = None"
  using assms by (cases s) (auto simp: special_def)

lemma dot_simps:
  "\<not> is_upper CHR ''.''" "lower_ascii CHR ''.'' = CHR ''.''" "\<not> is_digit CHR ''.''"
  "\<not> is_lower CHR ''.''" "is_ascii CHR ''.''"
  by (simp_all add: is_upper_def lower_ascii_def is_digit_def is_lower_def is_ascii_def byte_def)

lemma plain_char:
  assumes "is_digit c \<or> c = CHR ''.''"
  shows "c \<noteq> CHR ''+'' \<and> c \<noteq> CHR ''-'' \<and> lower_ascii c \<noteq> CHR ''x''"
    and "c \<notin> {CHR ''+'', CHR ''-'', CHR ''i'', CHR ''I'', CHR ''n'', CHR ''N''}"
  using assms by (auto simp: is_digit_def lower_ascii_def is_upper_def byte_def)

lemma plain_string:
  assumes "list_all (\<lambda>c. is_digit c \<or> c = CHR ''.'') s"
  shows "list_all (\<lambda>c. c \<noteq> CHR ''+'' \<and> c \<noteq> CHR ''-'' \<and> lower_ascii c \<noteq> CHR ''x'') s"
    and "s \<noteq> [] \<Longrightarrow> hd s \<notin> {CHR ''+'', CHR ''-'', CHR ''i'', CHR ''I'', CHR ''n'', CHR ''N''}"
proof -
  show "list_all (\<lambda>c. c \<noteq> CHR ''+'' \<and> c \<noteq> CHR ''-'' \<and> lower_ascii c \<noteq> CHR ''x'') s"
    using assms plain_char(1) by (simp add: list_all_iff)
  show "hd s \<notin> {CHR ''+'', CHR ''-'', CHR ''i'', CHR ''I'', CHR ''n'', CHR ''N''}" if "s \<noteq> []"
  proof -
    have "is_digit (hd s) \<or> hd s = CHR ''.''"
      using assms that by (cases s) simp_all
    then show ?thesis
      by (rule plain_char(2))
  qed
qed

lemma round_f64_nonneg_not_NInf: "0 \<le> x \<Longrightarrow> round_f64 x \<noteq> NInf"
proof -
  assume x: "0 \<le> x"
  have "0 \<le> round_binary64 x"
  proof (cases "x = 0")
    case True
    then show ?thesis by (simp add: round_binary64_def)
  next
    case False
    define e where "e = max (ilog2 \<bar>x\<bar>) (- 1022) - 52"
    have "0 \<le> x / 2 powi e"
      using x by simp
    then have "0 \<le> round_half_even (x / 2 powi e)"
      using round_half_even_ge [of 0 "x / 2 powi e"] by simp
    then show ?thesis
      using False by (simp add: round_binary64_def e_def Let_def)
  qed
  moreover have "- (2 powi 1024) < (0::rat)"
    by simp
  ultimately have "\<not> round_binary64 x \<le> - (2 powi 1024)"
    by linarith
  then show ?thesis
    by (auto simp: round_f64_def Let_def)
qed

lemma ParseFloat_digits:
  assumes "list_all is_digit ds" "ds \<noteq> []"
  shows "ParseFloat ds =
    (if round_f64 (of_nat (digits_value ds)) = PInf then Inl (NumError ds ErrRange)
     else Inr (round_f64 (of_nat (digits_value ds))))"
proof -
  have plain: "list_all (\<lambda>c. is_digit c \<or> c = CHR ''.'') ds"
    using assms(1) by (simp add: list_all_iff)
  from scan_decimal_nodot [OF assms(1)] obtain st
    where st: "scan_mantissa False scan_init ds = (st, [])"
      "mantissa st = digits_value ds" "\<not> sawdot st" "\<not> underscores st"
      "sawdigits st = (ds \<noteq> [])"
    by (elim exE conjE)
  have rf: "readFloat ds = Some (FloatLit False False (digits_value ds) 0, length ds)"
    by (subst readFloat_unsigned_decimal [OF plain_string(1) [OF plain]])
      (simp add: st assms(2) read_exponent_def)
  have sp: "special ds = None"
    by (rule special_None [OF plain_string(2) [OF plain]])
  have "round_f64 (of_nat (digits_value ds)) \<noteq> NInf"
    by (rule round_f64_nonneg_not_NInf) simp
  then show ?thesis
    by (simp add: ParseFloat_def sp rf float_lit_value_def Let_def)
qed

lemma ParseFloat_fraction:
  assumes "list_all is_digit ds" "list_all is_digit fs" "ds @ fs \<noteq> []"
  shows "ParseFloat (ds @ CHR ''.'' # fs) =
    (if round_f64 (decimal_value ds fs) = PInf then Inl (NumError (ds @ CHR ''.'' # fs) ErrRange)
     else Inr (round_f64 (decimal_value ds fs)))"
proof -
  have plain: "list_all (\<lambda>c. is_digit c \<or> c = CHR ''.'') (ds @ CHR ''.'' # fs)"
    using assms(1,2) by (auto simp: list_all_iff)
  from scan_decimal_dot [OF assms(1,2)] obtain st
    where sc: "scan_mantissa False scan_init (ds @ CHR ''.'' # fs) = (st, [])"
      and st: "mantissa st = digits_value (ds @ fs)" "sawdot st" "\<not> underscores st"
        "sawdigits st = (ds @ fs \<noteq> [])" "dp st - int (nd st) = - int (length fs)"
    by (elim exE conjE)
  have sd: "sawdigits st"
    using st(4) assms(3) by simp
  define m where "m = digits_value (ds @ fs)"
  have dpst: "dp st = int (nd st) - int (length fs)"
    using st(5) by simp
  define e where "e = (if m \<noteq> 0 then - int (length fs) else 0)"
  have rf: "readFloat (ds @ CHR ''.'' # fs)
            = Some (FloatLit False False m e, length (ds @ CHR ''.'' # fs))"
    by (subst readFloat_unsigned_decimal [OF plain_string(1) [OF plain]])
      (simp add: sc st(1,2,3) sd dpst read_exponent_def m_def e_def)
  have sp: "special (ds @ CHR ''.'' # fs) = None"
    by (rule special_None [OF plain_string(2) [OF plain]])
  have val: "float_lit_value (FloatLit False False m e) = decimal_value ds fs"
    by (simp add: float_lit_value_def decimal_value_def m_def e_def power_int_minus_divide)
  have "0 \<le> decimal_value ds fs"
    by (simp add: decimal_value_def)
  then have "round_f64 (decimal_value ds fs) \<noteq> NInf"
    by (rule round_f64_nonneg_not_NInf)
  then show ?thesis
    by (simp add: ParseFloat_def sp rf val Let_def del: append.simps length_append list.size)
qed


lemma is_fraction_cases:
  assumes "is_fraction fr"
  obtains "fr = []" | fs where "fr = CHR ''.'' # fs" "list_all is_digit fs"
  using assms by (cases fr) (auto simp: is_fraction_def)

lemma ParseFloat_decimal:
  assumes "list_all is_digit ds" "is_fraction fr" "ds @ drop 1 fr \<noteq> []"
  shows "ParseFloat (ds @ fr) =
    (if round_f64 (decimal_value ds (drop 1 fr)) = PInf then Inl (NumError (ds @ fr) ErrRange)
     else Inr (round_f64 (decimal_value ds (drop 1 fr))))"
proof (rule is_fraction_cases [OF assms(2)])
  assume "fr = []"
  then show ?thesis
    using ParseFloat_digits [of ds] assms by (simp add: decimal_value_def)
next
  fix fs
  assume "fr = CHR ''.'' # fs" "list_all is_digit fs"
  then show ?thesis
    using ParseFloat_fraction [of ds fs] assms by simp
qed

lemma unit_letter_props:
  assumes "lower_ascii c \<in> set ''bkmgtpi''"
  shows "c \<noteq> CHR ''+'' \<and> c \<noteq> CHR ''-'' \<and> lower_ascii c \<noteq> CHR ''x''"
    and "\<not> is_digit c" "c \<noteq> CHR ''.''" "c \<noteq> CHR ''_''" "lower_ascii c \<noteq> CHR ''e''"
    and "is_ascii c" "is_lower (lower_ascii c)"
proof -
  have l: "is_lower (lower_ascii c)"
    using assms by (auto simp: is_lower_def byte_def)
  show "is_lower (lower_ascii c)" by (rule l)
  have u: "is_upper c \<or> lower_ascii c = c"
    by (simp add: lower_ascii_def)
  show "is_ascii c"
    using l u by (auto simp: is_ascii_def is_upper_def is_lower_def byte_def)
  show "\<not> is_digit c"
    using l u by (auto simp: is_digit_def is_upper_def is_lower_def byte_def)
  show "c \<noteq> CHR ''.''" "c \<noteq> CHR ''_''"
    using l u by (auto simp: is_upper_def is_lower_def byte_def)
  show "lower_ascii c \<noteq> CHR ''e''"
    using assms by auto
  show "c \<noteq> CHR ''+'' \<and> c \<noteq> CHR ''-'' \<and> lower_ascii c \<noteq> CHR ''x''"
    using assms l u by (auto simp: is_upper_def is_lower_def byte_def)
qed

lemma suffixSize_chars:
  assumes "suffixSize t = Inr u"
  shows "t \<noteq> []" "list_all (\<lambda>c. c \<in> set ''bkmgtpi'') t"
proof -
  have "t \<in> {''b'', ''kb'', ''mb'', ''gb'', ''tb'', ''pb'', ''kib'', ''mib'', ''gib'', ''tib'', ''pib''}"
    using assms by (simp split: if_splits)
  then show "t \<noteq> []" "list_all (\<lambda>c. c \<in> set ''bkmgtpi'') t"
    by auto
qed

lemma scan_mantissa_remainder:
  assumes "list_all (\<lambda>c. is_digit c \<or> c = CHR ''.'') body"
    and "\<not> is_digit c" "c \<noteq> CHR ''.''" "c \<noteq> CHR ''_''"
  shows "\<exists>st r. scan_mantissa False st0 (body @ c # rest) = (st, r)
      \<and> r \<noteq> [] \<and> (hd r = CHR ''.'' \<or> hd r = c) \<and> length r \<le> length (body @ c # rest)"
  using assms(1)
proof (induction body arbitrary: st0)
  case Nil
  then show ?case
    using assms(2-4) by simp
next
  case (Cons b body)
  have b: "is_digit b \<or> b = CHR ''.''" and body: "list_all (\<lambda>c. is_digit c \<or> c = CHR ''.'') body"
    using Cons.prems by simp_all
  have nb: "b \<noteq> CHR ''_''"
    using b is_digit_simps(1) [of b] by auto
  show ?case
  proof (cases "b = CHR ''.''")
    case True
    show ?thesis
    proof (cases "sawdot st0")
      case True
      then show ?thesis
        using \<open>b = CHR ''.''\<close> by simp
    next
      case False
      obtain st r where "scan_mantissa False (st0\<lparr>sawdot := True, dp := int (nd st0)\<rparr>) (body @ c # rest) = (st, r)"
          "r \<noteq> []" "hd r = CHR ''.'' \<or> hd r = c" "length r \<le> length (body @ c # rest)"
        using Cons.IH [OF body] by blast
      then show ?thesis
        using False \<open>b = CHR ''.''\<close> by auto
    qed
  next
    case False
    then have d: "is_digit b"
      using b by simp
    obtain st r where "scan_mantissa False (digit_step st0 b) (body @ c # rest) = (st, r)"
        "r \<noteq> []" "hd r = CHR ''.'' \<or> hd r = c" "length r \<le> length (body @ c # rest)"
      using Cons.IH [OF body] by blast
    moreover have "scan_mantissa False st0 ((b # body) @ c # rest)
                   = scan_mantissa False (digit_step st0 b) (body @ c # rest)"
      using d False nb by (simp add: digit_step_def)
    ultimately show ?thesis
      by auto
  qed
qed

lemma ParseFloat_with_suffix:
  assumes "list_all (\<lambda>c. is_digit c \<or> c = CHR ''.'') body" "body \<noteq> []"
    and "list_all (\<lambda>c. lower_ascii c \<in> set ''bkmgtpi'') sfx" "sfx \<noteq> []"
  shows "ParseFloat (body @ sfx) = Inl (NumError (body @ sfx) ErrSyntax)"
proof -
  obtain c rest where sfx: "sfx = c # rest"
    using assms(4) by (cases sfx) auto
  have c: "lower_ascii c \<in> set ''bkmgtpi''"
    using assms(3) by (simp add: sfx)
  note cp = unit_letter_props [OF c]
  define s where "s = body @ sfx"
  have all: "list_all (\<lambda>c. c \<noteq> CHR ''+'' \<and> c \<noteq> CHR ''-'' \<and> lower_ascii c \<noteq> CHR ''x'') s"
    using assms(1,3) plain_char(1) unit_letter_props(1)
    by (auto simp: list_all_iff s_def)
  have hd: "hd s \<notin> {CHR ''+'', CHR ''-'', CHR ''i'', CHR ''I'', CHR ''n'', CHR ''N''}"
    using plain_string(2) [OF assms(1)] assms(2) by (simp add: s_def)
  have sp: "special s = None"
    using hd by (intro special_None) simp
  obtain st r where sc: "scan_mantissa False scan_init s = (st, r)"
      and r: "r \<noteq> []" "hd r = CHR ''.'' \<or> hd r = c" "length r \<le> length s"
    using scan_mantissa_remainder [OF assms(1) cp(2,3,4), of scan_init rest]
    unfolding s_def sfx by blast
  have "lower_ascii (hd r) \<noteq> CHR ''e''"
    using r(2) cp(5) dot_simps(2) by auto
  then have re: "read_exponent False r = Some (0, False, r)"
    using r(1) by (cases r) (auto simp: read_exponent_def)
  have len: "length s - length r \<noteq> length s"
    using r(1,3) assms(2) by (cases r) (auto simp: s_def)
  have "readFloat s = None \<or> (\<exists>l. readFloat s = Some (l, length s - length r))"
    by (subst readFloat_unsigned_decimal [OF all], subst readFloat_unsigned_decimal [OF all])
      (simp add: sc re)
  then have "ParseFloat s = Inl (NumError s ErrSyntax)"
    using len by (auto simp: ParseFloat_def sp)
  then show ?thesis
    by (simp add: s_def)
qed

lemma takeWhile_digits_prefix:
  assumes "list_all is_digit ds" "r = [] \<or> \<not> is_digit (hd r)"
  shows "takeWhile is_digit (ds @ r) = ds" "dropWhile is_digit (ds @ r) = r"
proof -
  have "takeWhile is_digit r = []" "dropWhile is_digit r = r"
    using assms(2) by (cases r; simp)+
  then show "takeWhile is_digit (ds @ r) = ds" "dropWhile is_digit (ds @ r) = r"
    using assms(1) by (simp_all add: list_all_iff takeWhile_append2 dropWhile_append2)
qed

lemma match_here_number_suffix:
  assumes "list_all is_digit ds" "is_fraction fr" "list_all is_lower l" "l \<noteq> []"
  shows "match_here (ds @ fr @ l) = Some (ds, fr, l)"
proof -
  obtain c l' where l: "l = c # l'"
    using assms(4) by (cases l) auto
  have c: "is_lower c" "\<not> is_digit c" "c \<noteq> CHR ''.''"
    using assms(3) by (auto simp: l is_lower_def is_digit_def byte_def)
  have tl: "takeWhile is_lower l = l"
    using assms(3) by (simp add: list_all_iff)
  show ?thesis
  proof (rule is_fraction_cases [OF assms(2)])
    assume fr: "fr = []"
    have "takeWhile is_digit (ds @ l) = ds" "dropWhile is_digit (ds @ l) = l"
      using takeWhile_digits_prefix [OF assms(1), of l] c(2) by (simp_all add: l)
    then show ?thesis
      using c(3) tl by (simp add: match_here_def fr l)
  next
    fix fs
    assume fr: "fr = CHR ''.'' # fs" and fs: "list_all is_digit fs"
    have a: "takeWhile is_digit (ds @ CHR ''.'' # fs @ l) = ds"
        "dropWhile is_digit (ds @ CHR ''.'' # fs @ l) = CHR ''.'' # fs @ l"
      using takeWhile_digits_prefix [OF assms(1), of "CHR ''.'' # fs @ l"] dot_simps(3)
      by simp_all
    have b: "takeWhile is_digit (fs @ l) = fs" "dropWhile is_digit (fs @ l) = l"
      using takeWhile_digits_prefix [OF fs, of l] c(2) by (simp_all add: l)
    show ?thesis
      using assms(4) by (simp add: match_here_def fr a b tl Let_def)
  qed
qed

lemma FindStringSubmatch_number_suffix:
  assumes "list_all is_digit ds" "is_fraction fr" "list_all is_lower l" "l \<noteq> []"
  shows "FindStringSubmatch (ds @ fr @ l) = Some (ds, fr, l)"
proof -
  obtain c t where "ds @ fr @ l = c # t"
    using assms(4) by (cases "ds @ fr @ l") auto
  then show ?thesis
    using match_here_number_suffix [OF assms]
    by (metis FindStringSubmatch.simps(2) option.simps(5))
qed

lemma ToLower_number_suffix:
  assumes "list_all is_digit ds" "is_fraction fr"
    and "list_all (\<lambda>c. lower_ascii c \<in> set ''bkmgtpi'') sfx"
  shows "ToLower pf (ds @ fr @ sfx) = ds @ fr @ map lower_ascii sfx"
proof -
  have ds: "list_all is_ascii ds" "map lower_ascii ds = ds"
    using assms(1) is_digit_simps(11,12) by (auto simp: list_all_iff map_idI)
  have fr: "list_all is_ascii fr \<and> map lower_ascii fr = fr"
  proof (rule is_fraction_cases [OF assms(2)])
    assume "fr = []"
    then show ?thesis by simp
  next
    fix fs
    assume "fr = CHR ''.'' # fs" "list_all is_digit fs"
    then show ?thesis
      using is_digit_simps(11,12) dot_simps(2,5) by (auto simp: list_all_iff map_idI)
  qed
  have sfx: "list_all is_ascii sfx"
    using assms(3) unit_letter_props(6) by (auto simp: list_all_iff)
  show ?thesis
    using ds fr sfx by (simp add: ToLower_def)
qed

lemma Parse_number_suffix:
  assumes "list_all is_digit ds" "is_fraction fr" "ds @ drop 1 fr \<noteq> []"
    and "suffixSize (map lower_ascii sfx) = Inr u"
  shows "Parse pf (ds @ fr @ sfx) =
    (case ParseFloat (ds @ fr) of
       Inl err \<Rightarrow> Inl err
     | Inr f \<Rightarrow> Inr (f64_to_u64 pf (f64_mul f (u64_to_f64 u))))"
proof -
  define l where "l = map lower_ascii sfx"
  have sz: "suffixSize l = Inr u"
    using assms(4) by (simp only: l_def)
  have l: "l \<noteq> []" "list_all (\<lambda>c. c \<in> set ''bkmgtpi'') l"
    by (rule suffixSize_chars(1) [OF sz], rule suffixSize_chars(2) [OF sz])
  have sfx1: "sfx \<noteq> []"
    using l(1) by (simp add: l_def)
  have sfx2: "list_all (\<lambda>c. lower_ascii c \<in> set ''bkmgtpi'') sfx"
    using l(2) unfolding l_def list_all_iff by (metis (no_types, lifting) image_eqI list.set_map)
  note sfx = sfx1 sfx2
  have lower: "list_all is_lower l"
    using sfx2 unit_letter_props(7) unfolding l_def list_all_iff by auto
  have body: "list_all (\<lambda>c. is_digit c \<or> c = CHR ''.'') (ds @ fr)" "ds @ fr \<noteq> []"
  proof -
    show "list_all (\<lambda>c. is_digit c \<or> c = CHR ''.'') (ds @ fr)"
      using assms(1) by (rule_tac is_fraction_cases [OF assms(2)]) (auto simp: list_all_iff)
    show "ds @ fr \<noteq> []"
      using assms(3) by (cases fr) auto
  qed
  define s where "s = ds @ fr @ sfx"
  have pf_fail: "ParseFloat s = Inl (NumError s ErrSyntax)"
    using ParseFloat_with_suffix [OF body sfx(2,1)] by (simp add: s_def)
  have low: "ToLower pf s = ds @ fr @ l"
    using ToLower_number_suffix [OF assms(1,2) sfx(2)] by (simp add: l_def s_def)
  have m: "FindStringSubmatch (ds @ fr @ l) = Some (ds, fr, l)"
    by (rule FindStringSubmatch_number_suffix [OF assms(1,2) lower l(1)])
  have ne: "(s = []) = False"
    using sfx(1) by (simp add: s_def)
  have "Parse pf s =
    (case ParseFloat (ds @ fr) of
       Inl err \<Rightarrow> Inl err
     | Inr f \<Rightarrow> Inr (f64_to_u64 pf (f64_mul f (u64_to_f64 u))))"
    unfolding Parse_def
    by (cases "ParseFloat (ds @ fr)")
      (simp_all only: ne if_False pf_fail low m sz sum.case option.case prod.case)
  then show ?thesis
    by (simp only: s_def)
qed

lemma digits_value_snoc: "digits_value (ds @ [c]) = digits_value ds * 10 + digit_val c"
  by (simp add: digits_value_def)

lemma digits_value_show_nat: "digits_value (show_nat n) = n"
proof (induction n rule: show_nat.induct)
  case (1 n)
  show ?case
  proof (cases "n < 10")
    case True
    then show ?thesis
      by (subst show_nat.simps) (simp add: digits_value_def digit_val_digit_char)
  next
    case False
    then have "digits_value (show_nat n) = digits_value (show_nat (n div 10)) * 10 + n mod 10"
      by (subst show_nat.simps) (simp add: digits_value_snoc digit_val_digit_char)
    then show ?thesis
      using 1 False by simp
  qed
qed

text \<open>The byte counts that float64 holds exactly.\<close>

lemma representable_nat:
  assumes "n < 2 ^ 64" "n < 2 ^ 53 \<or> 2 ^ 50 dvd n \<or> 10 ^ 15 dvd n"
  shows "round_binary64 (of_nat n) = of_nat n"
proof -
  consider "n < 2 ^ 53" | "2 ^ 50 dvd n" | "10 ^ 15 dvd n"
    using assms(2) by blast
  then show ?thesis
  proof cases
    case 1
    then show ?thesis
      by (rule round_binary64_of_nat)
  next
    case 2
    then obtain k where k: "n = 2 ^ 50 * k"
      by (auto simp: dvd_def)
    have "k < 2 ^ 14"
      using assms(1) by (simp add: k)
    then have "\<bar>int k\<bar> < 2 ^ 53"
      by simp
    then have "round_binary64 (of_int (int k) * 2 powi 50) = of_int (int k) * 2 powi 50"
      by (intro round_binary64_exact) simp_all
    then show ?thesis
      by (simp add: k mult.commute)
  next
    case 3
    then obtain k where k: "n = 10 ^ 15 * k"
      by (auto simp: dvd_def)
    have "k < 18447"
      using assms(1) by (simp add: k)
    then have "\<bar>int (k * 5 ^ 15)\<bar> < 2 ^ 53"
      by simp
    then have "round_binary64 (of_int (int (k * 5 ^ 15)) * 2 powi 15)
               = of_int (int (k * 5 ^ 15)) * 2 powi 15"
      by (intro round_binary64_exact) simp_all
    then show ?thesis
      by (simp add: k mult.commute)
  qed
qed

lemma f64_to_u64_of_nat:
  assumes "n < 2 ^ 64"
  shows "f64_to_u64 pf (Finite (of_nat n)) = word_of_nat n"
proof -
  have "(of_nat n :: rat) < of_nat (2 ^ 64)"
    using assms by (simp only: of_nat_less_iff)
  then have "(of_nat n :: rat) < 2 ^ 64"
    by simp
  then show ?thesis
    by (simp add: f64_to_u64_def truncate_rat_def)
qed

lemma round_f64_of_nat_exact:
  assumes "round_binary64 (of_nat n) = of_nat n" "n < 2 ^ 64"
  shows "round_f64 (of_nat n) = Finite (of_nat n)"
proof -
  have "(of_nat n :: rat) < of_nat (2 ^ 64)"
    using assms(2) by (simp only: of_nat_less_iff)
  then have "\<bar>round_binary64 (of_nat n)\<bar> < 2 powi 1024"
    by (simp add: assms(1))
  then show ?thesis
    using round_f64_finite [of "of_nat n"] assms(1) by simp
qed

lemma u64_to_f64_exact:
  assumes "unat s < 2 ^ 53 \<or> 2 ^ 50 dvd unat s \<or> 10 ^ 15 dvd unat s"
  shows "u64_to_f64 s = Finite (of_nat (unat s))"
proof -
  have lt: "unat s < 2 ^ 64"
    using unsigned_less [of s] by simp
  show ?thesis
    unfolding u64_to_f64_def
    by (rule round_f64_of_nat_exact [OF representable_nat [OF lt assms] lt])
qed

lemma Parse_show_nat_suffix:
  assumes "suffixSize (map lower_ascii sfx) = Inr u"
    and "unat s = k * unat u" "unat u < 2 ^ 53"
    and "unat s < 2 ^ 53 \<or> 2 ^ 50 dvd unat s \<or> 10 ^ 15 dvd unat s"
    and "k < 2 ^ 53"
  shows "Parse pf (show_nat k @ sfx) = Inr s"
proof -
  have k64: "k < 2 ^ 64"
    using assms(5) by simp
  have fk: "round_f64 (of_nat k) = Finite (of_nat k)"
    by (rule round_f64_of_nat_exact [OF round_binary64_of_nat [OF assms(5)] k64])
  have pf: "ParseFloat (show_nat k) = Inr (Finite (of_nat k))"
    using ParseFloat_digits [OF show_nat_digits show_nat_nonempty, of k]
    by (simp add: digits_value_show_nat fk)
  have fu: "u64_to_f64 u = Finite (of_nat (unat u))"
    using assms(3) by (intro u64_to_f64_exact) simp
  have fs: "round_f64 (of_nat (unat s)) = Finite (of_nat (unat s))"
    using u64_to_f64_exact [OF assms(4)] by (simp add: u64_to_f64_def)
  have "f64_mul (Finite (of_nat k)) (u64_to_f64 u) = round_f64 (of_nat (k * unat u))"
    by (simp add: fu)
  also have "\<dots> = Finite (of_nat (unat s))"
    using fs by (simp only: assms(2))
  finally have mul: "f64_mul (Finite (of_nat k)) (u64_to_f64 u) = Finite (of_nat (unat s))" .
  have lt: "unat s < 2 ^ 64"
    using unsigned_less [of s] by simp
  have "Parse pf (show_nat k @ [] @ sfx) = Inr (f64_to_u64 pf (Finite (of_nat (unat s))))"
    by (subst Parse_number_suffix [OF show_nat_digits _ _ assms(1)])
      (simp_all add: is_fraction_def show_nat_nonempty pf mul)
  moreover have "(word_of_nat (unat s) :: Size) = s"
    by (simp add: of_nat_unat)
  ultimately show ?thesis
    by (simp add: f64_to_u64_of_nat [OF lt])
qed

lemma magnitude_exact:
  assumes "unat s = k * unat u" "0 < unat u" "unat u < 2 ^ 53"
    and "unat s < 2 ^ 53 \<or> 2 ^ 50 dvd unat s \<or> 10 ^ 15 dvd unat s"
    and "k < 2 ^ 53"
  shows "magnitude s u = of_nat k" "render_magnitude (magnitude s u) = show_nat k"
proof -
  have lt: "unat s < 2 ^ 64"
    using unsigned_less [of s] by simp
  have rs: "round_binary64 (of_nat (unat s)) = of_nat (unat s)"
    by (rule representable_nat [OF lt assms(4)])
  have ru: "round_binary64 (of_nat (unat u)) = of_nat (unat u)"
    by (rule round_binary64_of_nat [OF assms(3)])
  have "(of_nat (unat s) :: rat) / of_nat (unat u) = of_nat k"
    using assms(2) by (simp add: assms(1))
  then show m: "magnitude s u = of_nat k"
    by (simp add: magnitude_def rs ru round_binary64_of_nat [OF assms(5)])
  show "render_magnitude (magnitude s u) = show_nat k"
    by (simp add: m render_magnitude_def)
qed

lemma unit_conditions_table:
  assumes "(c, u, sfx) \<in> set (unit_conditions s)"
  shows "suffixSize (map lower_ascii sfx) = Inr u" "1000 \<le> unat u" "unat u < 2 ^ 53"
    "CHR ''.'' \<notin> set sfx"
  using assms unfolding unit_conditions_def
  by (auto simp: char_eval unat_unit_values)

lemma find_unit_conditions_Some:
  assumes "find fst (unit_conditions s) = Some (c, u, sfx)"
  shows "(c, u, sfx) \<in> set (unit_conditions s)"
    and "u = Petabyte \<or> u = Pebibyte \<or> unat s < 2 ^ 50"
proof -
  show "(c, u, sfx) \<in> set (unit_conditions s)"
    using assms by (auto simp: find_Some_iff in_set_conv_nth)
  show "u = Petabyte \<or> u = Pebibyte \<or> unat s < 2 ^ 50"
    using assms unfolding unit_conditions_def
    by (auto simp: word_le_nat_alt unat_unit_values split: if_splits)
qed

lemma find_unit_conditions_None:
  assumes "find fst (unit_conditions s) = None"
  shows "unat s < 1024"
  using assms unfolding unit_conditions_def
  by (auto simp: word_le_nat_alt unat_unit_values split: if_splits)

lemma suffix_B: "suffixSize (map lower_ascii ''B'') = Inr Byte"
  by (simp add: char_eval)

lemma word_mod_0_dvd:
  fixes s u :: Size
  assumes "s mod u = 0"
  shows "unat s = (unat s div unat u) * unat u"
proof -
  have "unat (s mod u) = 0"
    using assms by simp
  then have "unat s mod unat u = 0"
    by (simp add: unat_mod)
  then show ?thesis
    by (metis add.right_neutral div_mult_mod_eq)
qed

lemma unit_exact_Some:
  assumes "find fst (unit_conditions s) = Some (c, u, sfx)" "s mod u = 0"
  shows "String_spec s = (if s = 0 then ''0B'' else show_nat (unat s div unat u) @ sfx)"
    and "Parse pf (show_nat (unat s div unat u) @ sfx) = Inr s"
proof -
  define k where "k = unat s div unat u"
  note tab = unit_conditions_table [OF find_unit_conditions_Some(1) [OF assms(1)]]
  have su: "unat s = k * unat u"
    using word_mod_0_dvd [OF assms(2)] by (simp add: k_def)
  have lt: "unat s < 2 ^ 64"
    using unsigned_less [of s] by simp
  have rep: "unat s < 2 ^ 53 \<or> 2 ^ 50 dvd unat s \<or> 10 ^ 15 dvd unat s"
    and k: "k < 2 ^ 53"
  proof -
    consider "u = Petabyte" | "u = Pebibyte" | "unat s < 2 ^ 50"
      using find_unit_conditions_Some(2) [OF assms(1)] by blast
    then have "(unat s < 2 ^ 53 \<or> 2 ^ 50 dvd unat s \<or> 10 ^ 15 dvd unat s) \<and> k < 2 ^ 53"
    proof cases
      case 1
      then have "unat s = k * 10 ^ 15"
        using su by (simp add: unat_unit_values)
      then show ?thesis
        using lt by auto
    next
      case 2
      then have "unat s = k * 2 ^ 50"
        using su by (simp add: unat_unit_values)
      then show ?thesis
        using lt by auto
    next
      case 3
      moreover have "k \<le> unat s"
        by (simp add: k_def)
      ultimately show ?thesis
        by simp
    qed
    then show "unat s < 2 ^ 53 \<or> 2 ^ 50 dvd unat s \<or> 10 ^ 15 dvd unat s" and "k < 2 ^ 53"
      by simp_all
  qed
  have upos: "0 < unat u"
    using tab(2) by simp
  have "render_magnitude (magnitude s u) = show_nat k"
    by (rule magnitude_exact(2) [OF su upos tab(3) rep k])
  then show "String_spec s = (if s = 0 then ''0B'' else show_nat (unat s div unat u) @ sfx)"
    by (simp add: String_spec_def assms(1) k_def)
  show "Parse pf (show_nat (unat s div unat u) @ sfx) = Inr s"
    unfolding k_def [symmetric]
    by (rule Parse_show_nat_suffix [OF tab(1) su tab(3) rep k])
qed

lemma Parse_bytes:
  assumes "unat s < 2 ^ 53"
  shows "Parse pf (show_nat (unat s) @ ''B'') = Inr s"
  by (rule Parse_show_nat_suffix [OF suffix_B]) (use assms in \<open>simp_all add: unat_unit_values\<close>)

lemma Parse_zero: "Parse pf ''0B'' = Inr 0"
proof -
  have "Parse pf (show_nat (unat (0 :: Size)) @ ''B'') = Inr 0"
    by (rule Parse_bytes) simp
  then show ?thesis
    by (simp add: show_nat.simps digit_char_def)
qed

lemma String_unit_exact:
  assumes "unit_exact s"
  shows "String pf s =
    (if s = 0 then ''0B''
     else case find fst (unit_conditions s) of
            None \<Rightarrow> show_nat (unat s) @ ''B''
          | Some (c, u, suffix) \<Rightarrow> show_nat (unat s div unat u) @ suffix)"
proof (cases "find fst (unit_conditions s)")
  case None
  then show ?thesis
    by (simp add: String_refines_spec String_spec_def)
next
  case (Some a)
  obtain c u sfx where a: "a = (c, u, sfx)"
    by (cases a)
  have "s mod u = 0"
    using assms by (simp add: unit_exact_def Some a)
  then show ?thesis
    using unit_exact_Some(1) [OF Some [unfolded a]]
    by (simp add: String_refines_spec Some a)
qed

lemma Parse_String_unit_exact:
  assumes "unit_exact s"
  shows "Parse pf (String pf s) = Inr s"
proof (cases "s = 0")
  case True
  then show ?thesis
    by (simp add: String_def Parse_zero)
next
  case False
  show ?thesis
  proof (cases "find fst (unit_conditions s)")
    case None
    have "unat s < 2 ^ 53"
      using find_unit_conditions_None [OF None] by simp
    then show ?thesis
      using False by (simp add: String_refines_spec String_spec_def None Parse_bytes)
  next
    case (Some a)
    obtain c u sfx where a: "a = (c, u, sfx)"
      by (cases a)
    have m: "s mod u = 0"
      using assms by (simp add: unit_exact_def Some a)
    show ?thesis
      using unit_exact_Some(1) [OF Some [unfolded a] m]
        unit_exact_Some(2) [OF Some [unfolded a] m, of pf] False
      by (simp add: String_refines_spec)
  qed
qed

lemma no_dot_unit_exact:
  assumes "unit_exact s"
  shows "CHR ''.'' \<notin> set (String pf s)"
proof (cases "find fst (unit_conditions s)")
  case None
  then show ?thesis
    by (simp add: String_unit_exact [OF assms] show_nat_no_dot)
next
  case (Some a)
  obtain c u sfx where a: "a = (c, u, sfx)"
    by (cases a)
  have "CHR ''.'' \<notin> set sfx"
    by (rule unit_conditions_table(4) [OF find_unit_conditions_Some(1) [OF Some [unfolded a]]])
  then show ?thesis
    by (simp add: String_unit_exact [OF assms] Some a show_nat_no_dot)
qed

lemma word_mod_eq_0_iff:
  fixes s u :: Size
  shows "(s mod u = 0) = (unat s mod unat u = 0)"
  by (metis unat_mod unat_eq_zero)

lemma unit_exact_nat:
  "unit_exact t =
     (let n = unat t
      in if n mod 10 ^ 15 = 0 then True
         else if 2 ^ 50 \<le> n then n mod 2 ^ 50 = 0
         else if n mod 10 ^ 12 = 0 then True
         else if 2 ^ 40 \<le> n then n mod 2 ^ 40 = 0
         else if n mod 10 ^ 9 = 0 then True
         else if 2 ^ 30 \<le> n then n mod 2 ^ 30 = 0
         else if n mod 10 ^ 6 = 0 then True
         else if 2 ^ 20 \<le> n then n mod 2 ^ 20 = 0
         else if n mod 10 ^ 3 = 0 then True
         else if 2 ^ 10 \<le> n then n mod 2 ^ 10 = 0
         else True)"
  unfolding unit_exact_def unit_conditions_def Let_def
  by (simp add: word_mod_eq_0_iff word_le_nat_alt unat_unit_values)

lemma unit_exact_binary:
  assumes "unat t = k * 2 ^ (10 * j)" "1 \<le> j" "j \<le> 5"
    and "j < 5 \<Longrightarrow> unat t \<le> 2 ^ (10 * (j + 1))"
  shows "unit_exact t"
proof -
  have "j = 1 \<or> j = 2 \<or> j = 3 \<or> j = 4 \<or> j = 5"
    using assms(2,3) by auto
  then show ?thesis
  proof (elim disjE)
    assume j: "j = 1"
    have "unat t mod 2 ^ 10 = 0" "unat t \<le> 2 ^ 20"
      using assms(1,4) by (simp_all add: j)
    then show ?thesis
      unfolding unit_exact_nat Let_def by auto
  next
    assume j: "j = 2"
    have "unat t mod 2 ^ 20 = 0" "unat t \<le> 2 ^ 30"
      using assms(1,4) by (simp_all add: j)
    then show ?thesis
      unfolding unit_exact_nat Let_def by auto
  next
    assume j: "j = 3"
    have "unat t mod 2 ^ 30 = 0" "unat t \<le> 2 ^ 40"
      using assms(1,4) by (simp_all add: j)
    then show ?thesis
      unfolding unit_exact_nat Let_def by auto
  next
    assume j: "j = 4"
    have "unat t mod 2 ^ 40 = 0" "unat t \<le> 2 ^ 50"
      using assms(1,4) by (simp_all add: j)
    then show ?thesis
      unfolding unit_exact_nat Let_def by auto
  next
    assume j: "j = 5"
    have "unat t mod 2 ^ 50 = 0"
      using assms(1) by (simp add: j)
    then show ?thesis
      unfolding unit_exact_nat Let_def by auto
  qed
qed

lemma unit_exact_units:
  "unit_exact 0" "unit_exact Byte"
  "unit_exact Kilobyte" "unit_exact Megabyte" "unit_exact Gigabyte" "unit_exact Terabyte"
  "unit_exact Petabyte" "unit_exact Kibibyte" "unit_exact Mebibyte" "unit_exact Gibibyte"
  "unit_exact Tebibyte" "unit_exact Pebibyte"
  unfolding unit_exact_nat Let_def by (simp_all add: unat_unit_values)

lemma unat_Floor:
  "unat (Floor s) =
     (let n = unat s
      in if 2 ^ 50 \<le> n then n div 2 ^ 50 * 2 ^ 50
         else if 10 ^ 15 \<le> n then n div 10 ^ 15 * 10 ^ 15
         else if 2 ^ 40 \<le> n then n div 2 ^ 40 * 2 ^ 40
         else if 10 ^ 12 \<le> n then n div 10 ^ 12 * 10 ^ 12
         else if 2 ^ 30 \<le> n then n div 2 ^ 30 * 2 ^ 30
         else if 10 ^ 9 \<le> n then n div 10 ^ 9 * 10 ^ 9
         else if 2 ^ 20 \<le> n then n div 2 ^ 20 * 2 ^ 20
         else if 10 ^ 6 \<le> n then n div 10 ^ 6 * 10 ^ 6
         else if 2 ^ 10 \<le> n then n div 2 ^ 10 * 2 ^ 10
         else if 10 ^ 3 \<le> n then n div 10 ^ 3 * 10 ^ 3
         else n)"
  unfolding Floor_def units_def Let_def
  by (simp add: unat_div_mult_exact word_le_nat_alt unat_unit_values)

lemma div_eq_1:
  fixes n d :: nat
  assumes "d \<le> n" "n < 2 * d"
  shows "n div d = 1"
  using assms by (simp add: div_nat_eqI)

lemma unit_exact_nat_cong:
  assumes "unat t = unat u" "unit_exact u"
  shows "unit_exact t"
  using assms by (simp add: unit_exact_nat)

lemma unit_exact_Floor: "unit_exact (Floor s)"
proof -
  define n where "n = unat s"
  consider "2 ^ 50 \<le> n" | "10 ^ 15 \<le> n" "n < 2 ^ 50" | "2 ^ 40 \<le> n" "n < 10 ^ 15"
    | "10 ^ 12 \<le> n" "n < 2 ^ 40" | "2 ^ 30 \<le> n" "n < 10 ^ 12" | "10 ^ 9 \<le> n" "n < 2 ^ 30"
    | "2 ^ 20 \<le> n" "n < 10 ^ 9" | "10 ^ 6 \<le> n" "n < 2 ^ 20" | "2 ^ 10 \<le> n" "n < 10 ^ 6"
    | "10 ^ 3 \<le> n" "n < 2 ^ 10" | "n < 10 ^ 3"
    by linarith
  then show ?thesis
  proof cases
    case 1
    then have "unat (Floor s) = n div 2 ^ 50 * 2 ^ (10 * 5)"
      by (simp add: unat_Floor n_def [symmetric])
    then show ?thesis
      by (rule unit_exact_binary) simp_all
  next
    case 2
    then have "n div 10 ^ 15 = 1"
      by (intro div_eq_1) simp_all
    then have "unat (Floor s) = unat Petabyte"
      using 2 by (simp add: unat_Floor n_def [symmetric] unat_unit_values)
    then show ?thesis
      by (rule unit_exact_nat_cong) (rule unit_exact_units)
  next
    case 3
    then have t: "unat (Floor s) = n div 2 ^ 40 * 2 ^ (10 * 4)"
      by (simp add: unat_Floor n_def [symmetric])
    have "n div 2 ^ 40 * 2 ^ 40 \<le> n"
      by simp
    then have "unat (Floor s) \<le> 2 ^ (10 * (4 + 1))"
      using 3 t by simp
    then show ?thesis
      using t by (intro unit_exact_binary [of _ "n div 2 ^ 40" 4]) simp_all
  next
    case 4
    then have "n div 10 ^ 12 = 1"
      by (intro div_eq_1) simp_all
    then have "unat (Floor s) = unat Terabyte"
      using 4 by (simp add: unat_Floor n_def [symmetric] unat_unit_values)
    then show ?thesis
      by (rule unit_exact_nat_cong) (rule unit_exact_units)
  next
    case 5
    then have t: "unat (Floor s) = n div 2 ^ 30 * 2 ^ (10 * 3)"
      by (simp add: unat_Floor n_def [symmetric])
    have "n div 2 ^ 30 * 2 ^ 30 \<le> n"
      by simp
    then have "unat (Floor s) \<le> 2 ^ (10 * (3 + 1))"
      using 5 t by simp
    then show ?thesis
      using t by (intro unit_exact_binary [of _ "n div 2 ^ 30" 3]) simp_all
  next
    case 6
    then have "n div 10 ^ 9 = 1"
      by (intro div_eq_1) simp_all
    then have "unat (Floor s) = unat Gigabyte"
      using 6 by (simp add: unat_Floor n_def [symmetric] unat_unit_values)
    then show ?thesis
      by (rule unit_exact_nat_cong) (rule unit_exact_units)
  next
    case 7
    then have t: "unat (Floor s) = n div 2 ^ 20 * 2 ^ (10 * 2)"
      by (simp add: unat_Floor n_def [symmetric])
    have "n div 2 ^ 20 * 2 ^ 20 \<le> n"
      by simp
    then have "unat (Floor s) \<le> 2 ^ (10 * (2 + 1))"
      using 7 t by simp
    then show ?thesis
      using t by (intro unit_exact_binary [of _ "n div 2 ^ 20" 2]) simp_all
  next
    case 8
    then have "n div 10 ^ 6 = 1"
      by (intro div_eq_1) simp_all
    then have "unat (Floor s) = unat Megabyte"
      using 8 by (simp add: unat_Floor n_def [symmetric] unat_unit_values)
    then show ?thesis
      by (rule unit_exact_nat_cong) (rule unit_exact_units)
  next
    case 9
    then have t: "unat (Floor s) = n div 2 ^ 10 * 2 ^ (10 * 1)"
      by (simp add: unat_Floor n_def [symmetric])
    have "n div 2 ^ 10 * 2 ^ 10 \<le> n"
      by simp
    then have "unat (Floor s) \<le> 2 ^ (10 * (1 + 1))"
      using 9 t by simp
    then show ?thesis
      using t by (intro unit_exact_binary [of _ "n div 2 ^ 10" 1]) simp_all
  next
    case 10
    then have "n div 10 ^ 3 = 1"
      by (intro div_eq_1) simp_all
    then have "unat (Floor s) = unat Kilobyte"
      using 10 by (simp add: unat_Floor n_def [symmetric] unat_unit_values)
    then show ?thesis
      by (rule unit_exact_nat_cong) (rule unit_exact_units)
  next
    case 11
    then have "unat (Floor s) = n"
      by (simp add: unat_Floor n_def [symmetric])
    then show ?thesis
      using 11 unfolding unit_exact_nat Let_def by auto
  qed
qed

lemma Round_unfold:
  "Round pf s =
     (if Pebibyte \<le> s then round_quotient pf s Pebibyte * Pebibyte
      else if Petabyte \<le> s then round_quotient pf s Petabyte * Petabyte
      else if Tebibyte \<le> s then round_quotient pf s Tebibyte * Tebibyte
      else if Terabyte \<le> s then round_quotient pf s Terabyte * Terabyte
      else if Gibibyte \<le> s then round_quotient pf s Gibibyte * Gibibyte
      else if Gigabyte \<le> s then round_quotient pf s Gigabyte * Gigabyte
      else if Mebibyte \<le> s then round_quotient pf s Mebibyte * Mebibyte
      else if Megabyte \<le> s then round_quotient pf s Megabyte * Megabyte
      else if Kibibyte \<le> s then round_quotient pf s Kibibyte * Kibibyte
      else if Kilobyte \<le> s then round_quotient pf s Kilobyte * Kilobyte
      else s)"
  by (simp add: Round_def units_def round_quotient_def)

lemma round_quotient_value:
  assumes "512 \<le> unat u" "unat u < 2 ^ 53"
  shows "round_quotient pf s u = word_of_int \<lfloor>magnitude s u + 1 / 2\<rfloor>"
    and "unat (round_quotient pf s u) = nat \<lfloor>magnitude s u + 1 / 2\<rfloor>"
proof -
  define q where "q = magnitude s u"
  have q: "f64_div (u64_to_f64 s) (u64_to_f64 u) = Finite q" "0 \<le> q" "q \<le> 2 ^ 55"
    using quotient_value [OF assms, of s] by (simp_all add: q_def)
  define K where "K = \<lfloor>q + 1 / 2\<rfloor>"
  have K: "0 \<le> K" "K \<le> 2 ^ 55 + 1"
  proof -
    show "0 \<le> K"
      using q(2) by (simp add: K_def)
    have "q + 1 / 2 \<le> of_int (2 ^ 55 + 1)"
      using q(3) by simp
    then show "K \<le> 2 ^ 55 + 1"
      unfolding K_def by (metis floor_mono floor_of_int)
  qed
  have mr: "math_Round (Finite q) = Finite (of_int K)"
    using q(2) by (simp add: K_def)
  have "(of_int K :: rat) \<le> of_int (2 ^ 55 + 1)" "(0 :: rat) \<le> of_int K"
    using K by (simp_all only: of_int_le_iff of_int_0_le_iff)
  then have "f64_to_u64 pf (Finite (of_int K)) = word_of_int K"
    using K(1) by (simp add: f64_to_u64_def truncate_rat_def)
  then have "round_quotient pf s u = word_of_int K"
    by (simp only: round_quotient_def q(1) mr)
  then show w: "round_quotient pf s u = word_of_int \<lfloor>magnitude s u + 1 / 2\<rfloor>"
    by (simp only: K_def q_def)
  have "K < 2 ^ 64"
    using K(2) by simp
  then have "unat (word_of_int K :: Size) = nat K"
    using K(1) by (simp add: unat_eq_nat_uint word_of_int_inverse take_bit_int_eq_self uint_word_of_int_eq)
  then show "unat (round_quotient pf s u) = nat \<lfloor>magnitude s u + 1 / 2\<rfloor>"
    by (simp add: w K_def q_def)
qed

lemma magnitude_le_pow2:
  assumes "unat s \<le> 2 ^ a" "unat u = 2 ^ b" "b \<le> a" "b < 53"
  shows "0 \<le> magnitude s u" "magnitude s u \<le> 2 ^ (a - b)"
proof -
  define x :: rat where "x = round_binary64 (of_nat (unat s))"
  have ru: "round_binary64 (of_nat (unat u)) = 2 ^ b"
  proof -
    have "(2 :: nat) ^ b < 2 ^ 53"
      using assms(4) by (intro power_strict_increasing) simp_all
    then have "unat u < 2 ^ 53"
      by (simp only: assms(2))
    then show ?thesis
      using round_binary64_of_nat [of "unat u"] by (simp add: assms(2))
  qed
  have x: "0 \<le> x" "x \<le> 2 ^ a"
  proof -
    have "(of_nat (unat s) :: rat) \<le> of_nat (2 ^ a)"
      using assms(1) by (simp only: of_nat_le_iff)
    then have le: "(of_nat (unat s) :: rat) \<le> 2 powi (int a)"
      by simp
    have "0 \<le> x \<and> x \<le> 2 powi (int a)"
    proof (cases "unat s = 0")
      case True
      then show ?thesis
        by (simp add: x_def round_binary64_def)
    next
      case False
      then have "(0 :: rat) < of_nat (unat s)"
        by simp
      then show ?thesis
        unfolding x_def using le by (intro round_binary64_le_pow2) simp_all
    qed
    then show "0 \<le> x" "x \<le> 2 ^ a"
      by simp_all
  qed
  have m: "magnitude s u = round_binary64 (x / 2 ^ b)"
    by (simp add: magnitude_def x_def ru)
  have y: "0 \<le> x / 2 ^ b" "x / 2 ^ b \<le> 2 powi (int (a - b))"
  proof -
    show "0 \<le> x / 2 ^ b"
      using x(1) by simp
    have "x / 2 ^ b \<le> 2 ^ a / 2 ^ b"
      using x(2) by (simp add: divide_right_mono)
    also have "(2 :: rat) ^ a / 2 ^ b = 2 ^ (a - b)"
      using assms(3) by (simp add: power_diff)
    finally show "x / 2 ^ b \<le> 2 powi (int (a - b))"
      by simp
  qed
  have "0 \<le> round_binary64 (x / 2 ^ b) \<and> round_binary64 (x / 2 ^ b) \<le> 2 powi (int (a - b))"
  proof (cases "x / 2 ^ b = 0")
    case True
    then show ?thesis
      by (simp add: round_binary64_def)
  next
    case False
    with y(1) have "0 < x / 2 ^ b"
      by (simp only: order_less_le) simp
    then show ?thesis
      using y(2) by (intro round_binary64_le_pow2) simp_all
  qed
  then show "0 \<le> magnitude s u" "magnitude s u \<le> 2 ^ (a - b)"
    by (simp_all add: m)
qed

lemma magnitude_binary_exact:
  assumes "unat s < 2 ^ 53" "unat u = 2 ^ b" "b < 53"
  shows "magnitude s u = of_nat (unat s) / 2 ^ b"
proof -
  have "(2 :: nat) ^ b < 2 ^ 53"
    using assms(3) by (intro power_strict_increasing) simp_all
  then have "unat u < 2 ^ 53"
    by (simp only: assms(2))
  then have ru: "round_binary64 (of_nat (unat u)) = 2 ^ b"
    using round_binary64_of_nat [of "unat u"] by (simp add: assms(2))
  have rs: "round_binary64 (of_nat (unat s)) = of_nat (unat s)"
    by (rule round_binary64_of_nat [OF assms(1)])
  have "\<bar>int (unat s)\<bar> < 2 ^ 53"
    using assms(1) by simp
  then have "round_binary64 (of_int (int (unat s)) * 2 powi (- int b))
             = of_int (int (unat s)) * 2 powi (- int b)"
    using assms(3) by (intro round_binary64_exact) simp_all
  then have "round_binary64 (of_nat (unat s) / 2 ^ b) = of_nat (unat s) / 2 ^ b"
    by (simp add: power_int_minus_divide)
  then show ?thesis
    by (simp add: magnitude_def ru rs)
qed

lemma floor_half_up_nat:
  fixes n B :: nat
  assumes "0 < B"
  shows "\<lfloor>(of_nat n :: rat) / of_nat B + 1 / 2\<rfloor> = int ((2 * n + B) div (2 * B))"
proof -
  have "(of_nat n :: rat) / of_nat B + 1 / 2 = of_nat (2 * n + B) / of_nat (2 * B)"
    using assms by (simp add: field_simps)
  then show ?thesis
    by (simp only: floor_divide_of_nat_eq)
qed

lemma round_quotient_binary_exact:
  assumes "unat s < 2 ^ 53" "unat u = 2 ^ b" "9 \<le> b" "b < 53"
  shows "unat (round_quotient pf s u) = (2 * unat s + unat u) div (2 * unat u)"
proof -
  have "(2 :: nat) ^ 9 \<le> 2 ^ b"
    using assms(3) by (intro power_increasing) simp_all
  then have lo: "512 \<le> unat u"
    by (simp add: assms(2))
  have "(2 :: nat) ^ b < 2 ^ 53"
    using assms(4) by (intro power_strict_increasing) simp_all
  then have hi: "unat u < 2 ^ 53"
    by (simp only: assms(2))
  have "magnitude s u = of_nat (unat s) / of_nat (2 ^ b)"
    using magnitude_binary_exact [OF assms(1,2,4)] by simp
  then have "\<lfloor>magnitude s u + 1 / 2\<rfloor> = int ((2 * unat s + 2 ^ b) div (2 * 2 ^ b))"
    using floor_half_up_nat [of "2 ^ b" "unat s"] by simp
  then show ?thesis
    using round_quotient_value(2) [OF lo hi, of pf s] by (simp add: assms(2))
qed

lemma round_quotient_decimal:
  assumes "512 \<le> unat u" "unat u < 2 ^ 53" "unat u \<le> unat s" "4 * unat s < 5 * unat u"
    and s53: "unat s < 2 ^ 53"
  shows "round_quotient pf s u = 1"
    and "(2 * unat s + unat u) div (2 * unat u) = 1"
proof -
  define x :: rat where "x = of_nat (unat s) / of_nat (unat u)"
  have upos: "(0 :: rat) < of_nat (unat u)"
    using assms(1) by simp
  have "(of_nat (unat u) :: rat) \<le> of_nat (unat s)"
    using assms(3) by (simp only: of_nat_le_iff)
  then have x1: "1 \<le> x"
    using upos by (simp add: x_def)
  have "(of_nat (4 * unat s) :: rat) < of_nat (5 * unat u)"
    using assms(4) by (simp only: of_nat_less_iff)
  then have x2: "x < 5 / 4"
    using upos by (simp add: x_def field_simps)
  have m: "magnitude s u = round_binary64 x"
    by (simp add: magnitude_def x_def round_binary64_of_nat [OF s53]
        round_binary64_of_nat [OF assms(2)])
  have "\<bar>round_binary64 x - x\<bar> \<le> 1 / 2 ^ 53"
    using x1 x2 by (intro round_binary64_error_1_2) simp_all
  moreover have "(1 :: rat) / 2 ^ 53 \<le> 1 / 4"
    by simp
  ultimately have "\<bar>round_binary64 x - x\<bar> \<le> 1 / 4"
    by linarith
  then have "1 / 2 \<le> round_binary64 x" "round_binary64 x < 3 / 2"
    using x1 x2 by linarith+
  then have "\<lfloor>magnitude s u + 1 / 2\<rfloor> = 1"
    by (simp add: m floor_eq_iff)
  then show "round_quotient pf s u = 1"
    using round_quotient_value(1) [OF assms(1,2), of pf s] by simp
  show "(2 * unat s + unat u) div (2 * unat u) = 1"
    using assms(1,3,4) by (intro div_nat_eqI) simp_all
qed

lemma unit_exact_mult_Pebibyte: "unit_exact (w * Pebibyte)"
proof -
  have "unat (w * Pebibyte) = (unat w * 2 ^ 50) mod 2 ^ 64"
    by (simp add: unat_word_ariths unat_unit_values)
  also have "\<dots> = (unat w * 2 ^ 50) mod (2 ^ 14 * 2 ^ 50)"
    by simp
  also have "\<dots> = (unat w mod 2 ^ 14) * 2 ^ 50"
    by (simp only: mult_mod_left)
  finally have "unat (w * Pebibyte) = (unat w mod 2 ^ 14) * 2 ^ (10 * 5)"
    by simp
  then show ?thesis
    by (rule unit_exact_binary) simp_all
qed

lemma unit_exact_round_binary:
  assumes "unat u = 2 ^ (10 * j)" "1 \<le> j" "j \<le> 4" "unat s \<le> 2 ^ (10 * (j + 1))"
  shows "unit_exact (round_quotient pf s u * u)"
proof -
  have "(2 :: nat) ^ 9 \<le> 2 ^ (10 * j)"
    using assms(2) by (intro power_increasing) simp_all
  then have lo: "512 \<le> unat u"
    by (simp add: assms(1))
  have "(2 :: nat) ^ (10 * j) < 2 ^ 53"
    using assms(3) by (intro power_strict_increasing) simp_all
  then have hi: "unat u < 2 ^ 53"
    by (simp only: assms(1))
  have "magnitude s u \<le> 2 ^ (10 * (j + 1) - 10 * j)"
    using assms(3) by (intro magnitude_le_pow2(2) [OF assms(4,1)]) simp_all
  then have "magnitude s u + 1 / 2 < 1025"
    by simp
  then have "\<lfloor>magnitude s u + 1 / 2\<rfloor> < 1025"
    by (simp add: floor_less_iff)
  then have "nat \<lfloor>magnitude s u + 1 / 2\<rfloor> \<le> 1024"
    by linarith
  then have K: "unat (round_quotient pf s u) \<le> 1024"
    by (simp only: round_quotient_value(2) [OF lo hi, of pf s])
  then have "unat (round_quotient pf s u) * unat u \<le> 1024 * 2 ^ (10 * j)"
    by (simp add: assms(1))
  also have "(1024 :: nat) * 2 ^ (10 * j) = 2 ^ (10 * (j + 1))"
    by (simp add: power_add mult.commute)
  finally have le: "unat (round_quotient pf s u) * unat u \<le> 2 ^ (10 * (j + 1))" .
  have "(2 :: nat) ^ (10 * (j + 1)) < 2 ^ 64"
    using assms(3) by (intro power_strict_increasing) simp_all
  then have "unat (round_quotient pf s u) * unat u < 2 ^ LENGTH(64)"
    using le by simp
  then have t: "unat (round_quotient pf s u * u) = unat (round_quotient pf s u) * unat u"
    by (metis unat_mult_lem)
  show ?thesis
  proof (rule unit_exact_binary [of _ "unat (round_quotient pf s u)" j])
    show "unat (round_quotient pf s u * u) = unat (round_quotient pf s u) * 2 ^ (10 * j)"
      by (simp add: t assms(1))
    show "1 \<le> j" "j \<le> 5"
      using assms(2,3) by simp_all
    show "unat (round_quotient pf s u * u) \<le> 2 ^ (10 * (j + 1))"
      using le by (simp add: t)
  qed
qed

lemma unit_exact_Round: "unit_exact (Round pf s)"
proof -
  define n where "n = unat s"
  have s53: "n < 2 ^ 50 \<Longrightarrow> unat s < 2 ^ 53"
    by (simp add: n_def)
  consider "2 ^ 50 \<le> n" | "10 ^ 15 \<le> n" "n < 2 ^ 50" | "2 ^ 40 \<le> n" "n < 10 ^ 15"
    | "10 ^ 12 \<le> n" "n < 2 ^ 40" | "2 ^ 30 \<le> n" "n < 10 ^ 12" | "10 ^ 9 \<le> n" "n < 2 ^ 30"
    | "2 ^ 20 \<le> n" "n < 10 ^ 9" | "10 ^ 6 \<le> n" "n < 2 ^ 20" | "2 ^ 10 \<le> n" "n < 10 ^ 6"
    | "10 ^ 3 \<le> n" "n < 2 ^ 10" | "n < 10 ^ 3"
    by linarith
  then show ?thesis
  proof cases
    case 1
    then have "Round pf s = round_quotient pf s Pebibyte * Pebibyte"
      by (simp add: Round_unfold word_le_nat_alt unat_unit_values n_def)
    then show ?thesis
      by (simp add: unit_exact_mult_Pebibyte)
  next
    case 2
    then have r: "Round pf s = round_quotient pf s Petabyte * Petabyte"
      by (simp add: Round_unfold word_le_nat_alt unat_unit_values n_def)
    have "round_quotient pf s Petabyte = 1"
      using 2 by (intro round_quotient_decimal(1)) (simp_all add: unat_unit_values n_def)
    then show ?thesis
      by (simp add: r unit_exact_units)
  next
    case 3
    then have r: "Round pf s = round_quotient pf s Tebibyte * Tebibyte"
      by (simp add: Round_unfold word_le_nat_alt unat_unit_values n_def)
    show ?thesis
      unfolding r using 3
      by (intro unit_exact_round_binary [of _ 4]) (simp_all add: unat_unit_values n_def)
  next
    case 4
    then have r: "Round pf s = round_quotient pf s Terabyte * Terabyte"
      by (simp add: Round_unfold word_le_nat_alt unat_unit_values n_def)
    have "round_quotient pf s Terabyte = 1"
      using 4 by (intro round_quotient_decimal(1)) (simp_all add: unat_unit_values n_def)
    then show ?thesis
      by (simp add: r unit_exact_units)
  next
    case 5
    then have r: "Round pf s = round_quotient pf s Gibibyte * Gibibyte"
      by (simp add: Round_unfold word_le_nat_alt unat_unit_values n_def)
    show ?thesis
      unfolding r using 5
      by (intro unit_exact_round_binary [of _ 3]) (simp_all add: unat_unit_values n_def)
  next
    case 6
    then have r: "Round pf s = round_quotient pf s Gigabyte * Gigabyte"
      by (simp add: Round_unfold word_le_nat_alt unat_unit_values n_def)
    have "round_quotient pf s Gigabyte = 1"
      using 6 by (intro round_quotient_decimal(1)) (simp_all add: unat_unit_values n_def)
    then show ?thesis
      by (simp add: r unit_exact_units)
  next
    case 7
    then have r: "Round pf s = round_quotient pf s Mebibyte * Mebibyte"
      by (simp add: Round_unfold word_le_nat_alt unat_unit_values n_def)
    show ?thesis
      unfolding r using 7
      by (intro unit_exact_round_binary [of _ 2]) (simp_all add: unat_unit_values n_def)
  next
    case 8
    then have r: "Round pf s = round_quotient pf s Megabyte * Megabyte"
      by (simp add: Round_unfold word_le_nat_alt unat_unit_values n_def)
    have "round_quotient pf s Megabyte = 1"
      using 8 by (intro round_quotient_decimal(1)) (simp_all add: unat_unit_values n_def)
    then show ?thesis
      by (simp add: r unit_exact_units)
  next
    case 9
    then have r: "Round pf s = round_quotient pf s Kibibyte * Kibibyte"
      by (simp add: Round_unfold word_le_nat_alt unat_unit_values n_def)
    show ?thesis
      unfolding r using 9
      by (intro unit_exact_round_binary [of _ 1]) (simp_all add: unat_unit_values n_def)
  next
    case 10
    then have r: "Round pf s = round_quotient pf s Kilobyte * Kilobyte"
      by (simp add: Round_unfold word_le_nat_alt unat_unit_values n_def)
    have "round_quotient pf s Kilobyte = 1"
      using 10 by (intro round_quotient_decimal(1)) (simp_all add: unat_unit_values n_def)
    then show ?thesis
      by (simp add: r unit_exact_units)
  next
    case 11
    then have "Round pf s = s"
      by (simp add: Round_unfold word_le_nat_alt unat_unit_values n_def)
    then show ?thesis
      using 11 unfolding unit_exact_nat Let_def by (auto simp: n_def)
  qed
qed

section \<open>The round trip through the parser\<close>

text \<open>
  The canonical string of a size with a selected unit is the printed magnitude followed
  by the suffix; \<open>Parse\<close> reads the magnitude back as a float64, multiplies by the unit and
  truncates.
\<close>

lemma two_decimals_value:
  "digits_value (show_nat (n div 100) @ [digit_char (n div 10 mod 10), digit_char (n mod 10)]) = n"
proof -
  have "digits_value ((show_nat (n div 100) @ [digit_char (n div 10 mod 10)]) @ [digit_char (n mod 10)])
        = (n div 100 * 10 + n div 10 mod 10) * 10 + n mod 10"
    by (simp only: digits_value_snoc digits_value_show_nat)
      (simp add: digit_val_digit_char)
  moreover have "n div 100 * 10 + n div 10 mod 10 = n div 10"
  proof -
    have "n div 100 = n div 10 div 10"
      by (simp add: div_mult2_eq)
    then show ?thesis
      by simp
  qed
  ultimately show ?thesis
    by simp
qed

lemma render_magnitude_decimal:
  assumes "0 \<le> q"
  shows "\<exists>ds fr. render_magnitude q = ds @ fr \<and> list_all is_digit ds \<and> is_fraction fr
      \<and> ds \<noteq> [] \<and> decimal_value ds (drop 1 fr) = of_int (round_half_even (q * 100)) / 100"
proof (cases "q = of_int \<lfloor>q\<rfloor>")
  case True
  define k where "k = nat \<lfloor>q\<rfloor>"
  have fl: "0 \<le> \<lfloor>q\<rfloor>"
    using assms by simp
  have q: "q = of_nat k"
    using True fl by (simp add: k_def)
  have "q * 100 = of_int (int k * 100)"
    by (simp add: q)
  then have "round_half_even (q * 100) = int k * 100"
    by (simp only: round_half_even_of_int)
  then have v: "of_int (round_half_even (q * 100)) / 100 = (of_nat k :: rat)"
    by simp
  have "render_magnitude q = show_nat k @ []"
    using True by (simp add: render_magnitude_def k_def)
  moreover have "decimal_value (show_nat k) (drop 1 []) = of_nat k"
    by (simp add: decimal_value_def digits_value_show_nat)
  ultimately show ?thesis
    using show_nat_digits [of k] show_nat_nonempty [of k] v
    by (intro exI [of _ "show_nat k"] exI [of _ "[]"]) (simp add: is_fraction_def)
next
  case False
  define n where "n = nat (round_half_even (q * 100))"
  define fs where "fs = [digit_char (n div 10 mod 10), digit_char (n mod 10)]"
  have "(of_int 0 :: rat) \<le> q * 100"
    using assms by simp
  then have "0 \<le> round_half_even (q * 100)"
    by (rule round_half_even_ge)
  then have n: "(of_nat n :: rat) = of_int (round_half_even (q * 100))"
    by (simp add: n_def)
  have r: "render_magnitude q = show_nat (n div 100) @ (CHR ''.'' # fs)"
    using False by (simp add: render_magnitude_def n_def fs_def Let_def)
  have fd: "list_all is_digit fs"
    by (simp add: fs_def is_digit_digit_char)
  have "decimal_value (show_nat (n div 100)) fs = of_nat n / 100"
    unfolding decimal_value_def fs_def two_decimals_value by simp
  then have "decimal_value (show_nat (n div 100)) (drop 1 (CHR ''.'' # fs))
             = of_int (round_half_even (q * 100)) / 100"
    by (simp add: n)
  then show ?thesis
    using r fd show_nat_digits [of "n div 100"] show_nat_nonempty [of "n div 100"]
    by (intro exI [of _ "show_nat (n div 100)"] exI [of _ "CHR ''.'' # fs"])
      (simp add: is_fraction_def)
qed

lemma printed_magnitude_bounds:
  assumes "512 \<le> unat u" "unat u < 2 ^ 53"
  shows "0 \<le> printed_magnitude s u" "printed_magnitude s u \<le> 2 ^ 56"
proof -
  define q where "q = magnitude s u"
  have q: "0 \<le> q" "q \<le> 2 ^ 55"
    using quotient_value [OF assms, of s] by (simp_all add: q_def)
  have "(of_int 0 :: rat) \<le> q * 100"
    using q(1) by simp
  then have "0 \<le> round_half_even (q * 100)"
    by (rule round_half_even_ge)
  then show "0 \<le> printed_magnitude s u"
    by (simp add: printed_magnitude_def q_def)
  have "\<bar>of_int (round_half_even (q * 100)) - q * 100\<bar> \<le> 1 / 2"
    by (rule round_half_even_error)
  then have "of_int (round_half_even (q * 100)) \<le> q * 100 + 1 / 2"
    by linarith
  then have "of_int (round_half_even (q * 100)) / 100 \<le> q + 1 / 200"
    by (simp add: field_simps)
  then show "printed_magnitude s u \<le> 2 ^ 56"
    using q(2) by (simp add: printed_magnitude_def q_def)
qed

lemma round_f64_printed_magnitude:
  assumes "512 \<le> unat u" "unat u < 2 ^ 53"
  shows "round_f64 (printed_magnitude s u) = Finite (round_binary64 (printed_magnitude s u))"
    and "0 \<le> round_binary64 (printed_magnitude s u)"
    and "round_binary64 (printed_magnitude s u) \<le> 2 ^ 56"
proof -
  define x where "x = printed_magnitude s u"
  have x: "0 \<le> x" "x \<le> 2 powi 56"
    using printed_magnitude_bounds [OF assms, of s] by (simp_all add: x_def)
  have b: "0 \<le> round_binary64 x \<and> round_binary64 x \<le> 2 powi 56"
  proof (cases "x = 0")
    case True
    then show ?thesis
      by (simp add: round_binary64_def)
  next
    case False
    with x(1) have "0 < x"
      by simp
    then show ?thesis
      using x(2) by (intro round_binary64_le_pow2) simp_all
  qed
  then have "\<bar>round_binary64 x\<bar> < 2 powi 1024"
    by simp
  then show "round_f64 (printed_magnitude s u) = Finite (round_binary64 (printed_magnitude s u))"
    unfolding x_def by (rule round_f64_finite)
  show "0 \<le> round_binary64 (printed_magnitude s u)"
      "round_binary64 (printed_magnitude s u) \<le> 2 ^ 56"
    using b by (simp_all add: x_def)
qed

lemma Parse_String_selected:
  assumes "find fst (unit_conditions s) = Some (c, u, sfx)" "s \<noteq> 0"
  shows "Parse pf (String pf s)
    = Inr (f64_to_u64 pf
            (round_f64 (round_binary64 (printed_magnitude s u) * of_nat (unat u))))"
proof -
  note tab = unit_conditions_table [OF find_unit_conditions_Some(1) [OF assms(1)]]
  have lo: "512 \<le> unat u"
    using tab(2) by simp
  define q where "q = magnitude s u"
  have q: "0 \<le> q"
    using quotient_value [OF lo tab(3), of s] by (simp add: q_def)
  from render_magnitude_decimal [OF q] obtain ds fr
    where r: "render_magnitude q = ds @ fr" "list_all is_digit ds" "is_fraction fr" "ds \<noteq> []"
      "decimal_value ds (drop 1 fr) = printed_magnitude s u"
    unfolding printed_magnitude_def q_def by (elim exE conjE)
  have ne: "ds @ drop 1 fr \<noteq> []"
    using r(4) by simp
  have str: "String pf s = ds @ fr @ sfx"
    using assms r(1) by (simp add: String_refines_spec String_spec_def q_def)
  note rf = round_f64_printed_magnitude [OF lo tab(3), of s]
  have pfl: "ParseFloat (ds @ fr) = Inr (Finite (round_binary64 (printed_magnitude s u)))"
    using ParseFloat_decimal [OF r(2,3) ne, unfolded r(5) rf(1)] by simp
  have fu: "u64_to_f64 u = Finite (of_nat (unat u))"
    using tab(3) by (intro u64_to_f64_exact) simp
  show ?thesis
    unfolding str
    by (subst Parse_number_suffix [OF r(2,3) ne tab(1)]) (simp add: pfl fu)
qed

text \<open>
  The rounding to binary64 of a value from 1 on: 53 bits and an exponent, a relative error
  of at most \<open>2 ^ -53\<close>; a product with a power of two is exact.
\<close>

lemma round_binary64_form:
  assumes "1 \<le> x"
  shows "\<exists>M e. round_binary64 x = of_int M * 2 powi e \<and> 0 \<le> M \<and> M \<le> 2 ^ 53 \<and> - 52 \<le> e
      \<and> \<bar>of_int M * 2 powi e - x\<bar> \<le> x / 2 ^ 53"
proof -
  have pos: "0 < x"
    using assms by simp
  define L where "L = ilog2 x"
  define e where "e = L - 52"
  define z where "z = x / 2 powi e"
  define M where "M = round_half_even z"
  have L: "2 powi L \<le> x" "x < 2 powi (L + 1)"
    using ilog2_bounds [OF pos] by (simp_all add: L_def)
  have "(2 :: rat) powi 0 < 2 powi (L + 1)"
    using assms L(2) by simp
  then have L0: "0 \<le> L"
    by (simp only: two_powi_less_iff)
  then have mx: "max L (- 1022) = L"
    by simp
  have r: "round_binary64 x = of_int M * 2 powi e"
    using pos by (simp add: round_binary64_def Let_def L_def [symmetric] mx e_def M_def z_def)
  have "0 < z"
    using pos by (simp add: z_def)
  then have M0: "0 \<le> M"
    unfolding M_def using round_half_even_ge [of 0 z] by simp
  have p53: "(2 :: rat) powi (L + 1) = 2 powi 53 * 2 powi e"
  proof -
    have "53 + e = L + 1"
      by (simp add: e_def)
    then show ?thesis
      using two_powi_add [of 53 e] by (simp only:)
  qed
  have "z < 2 powi 53"
    using L(2) unfolding z_def p53 by (simp add: pos_divide_less_eq)
  then have "z \<le> of_int (2 ^ 53)"
    by simp
  then have M53: "M \<le> 2 ^ 53"
    unfolding M_def by (rule round_half_even_le)
  have "\<bar>of_int M - z\<bar> \<le> 1 / 2"
    unfolding M_def by (rule round_half_even_error)
  then have "\<bar>of_int M - z\<bar> * 2 powi e \<le> (1 / 2) * 2 powi e"
    by (intro mult_right_mono) simp_all
  moreover have "\<bar>of_int M - z\<bar> * 2 powi e = \<bar>of_int M * 2 powi e - x\<bar>"
  proof -
    have "(of_int M - z) * 2 powi e = of_int M * 2 powi e - x"
      by (simp add: z_def algebra_simps)
    moreover have "\<bar>(of_int M - z) * 2 powi e\<bar> = \<bar>of_int M - z\<bar> * 2 powi e"
      by (simp add: abs_mult)
    ultimately show ?thesis
      by simp
  qed
  moreover have "(1 / 2) * (2 :: rat) powi e \<le> x / 2 ^ 53"
  proof -
    have "(2 :: rat) powi L = 2 powi 52 * 2 powi e"
    proof -
      have "52 + e = L"
        by (simp add: e_def)
      then show ?thesis
        using two_powi_add [of 52 e] by (simp only:)
    qed
    then have "(2 :: rat) powi e = 2 powi L / 2 ^ 52"
      by simp
    then have "(1 / 2) * (2 :: rat) powi e = 2 powi L / 2 ^ 53"
      by simp
    also have "\<dots> \<le> x / 2 ^ 53"
      using L(1) by (intro divide_right_mono) simp_all
    finally show ?thesis .
  qed
  ultimately have err: "\<bar>of_int M * 2 powi e - x\<bar> \<le> x / 2 ^ 53"
    by linarith
  have "- 52 \<le> e"
    using L0 by (simp add: e_def)
  then show ?thesis
    using r M0 M53 err by blast
qed

lemma round_binary64_rel_error:
  assumes "1 \<le> x"
  shows "\<bar>round_binary64 x - x\<bar> \<le> x / 2 ^ 53"
  using round_binary64_form [OF assms] by auto

lemma round_binary64_scale:
  assumes "1 \<le> x"
  shows "round_binary64 (round_binary64 x * 2 ^ j) = round_binary64 x * 2 ^ j"
proof -
  from round_binary64_form [OF assms] obtain M e
    where r: "round_binary64 x = of_int M * 2 powi e" and M: "0 \<le> M" "M \<le> 2 ^ 53"
      and e: "- 52 \<le> e"
    by (elim exE conjE)
  have sc: "of_int M * (2 :: rat) powi e * 2 ^ j = of_int M * 2 powi (e + int j)"
    by (simp add: two_powi_add)
  show ?thesis
  proof (cases "M = 2 ^ 53")
    case True
    have "(2 :: rat) powi (1 + (e + int j)) = 2 powi 1 * 2 powi (e + int j)"
      by (rule two_powi_add)
    then have "of_int M * (2 :: rat) powi (e + int j) = of_int (2 ^ 52) * 2 powi (e + int j + 1)"
      by (simp add: True add.commute)
    moreover have "round_binary64 (of_int (2 ^ 52) * 2 powi (e + int j + 1))
                   = of_int (2 ^ 52) * 2 powi (e + int j + 1)"
      using e by (intro round_binary64_exact) simp_all
    ultimately show ?thesis
      by (simp only: r sc)
  next
    case False
    then have "\<bar>M\<bar> < 2 ^ 53"
      using M by simp
    then have "round_binary64 (of_int M * 2 powi (e + int j)) = of_int M * 2 powi (e + int j)"
      using e by (intro round_binary64_exact) simp_all
    then show ?thesis
      by (simp only: r sc)
  qed
qed

text \<open>
  Below \<open>2 ^ 48\<close> the rounding of the printed magnitude to float64 does not reach the
  integer part of the product: the result is the integer quotient.
\<close>

lemma reparse_binary_small:
  fixes S j :: nat and n :: int
  assumes S: "S < 2 ^ 48" and j: "10 \<le> j" "j \<le> 40" and le: "2 ^ j \<le> S"
    and n: "n = round_half_even (of_nat S * 100 / 2 ^ j)"
  shows "\<exists>P. round_f64 (round_binary64 (of_int n / 100) * 2 ^ j) = Finite P
      \<and> 0 \<le> P \<and> P < 2 ^ 64 \<and> \<lfloor>P\<rfloor> = (n * 2 ^ j) div 100"
proof -
  define U :: rat where "U = 2 ^ j"
  define q :: rat where "q = of_nat S / U"
  define pm :: rat where "pm = of_int n / 100"
  define y :: rat where "y = pm * U"
  define m where "m = round_binary64 pm"
  define z where "z = m * U"
  have U: "0 < U" "U \<le> 2 ^ 40"
  proof -
    show "0 < U"
      by (simp add: U_def)
    have "(2 :: rat) ^ j \<le> 2 ^ 40"
      using j(2) by (intro power_increasing) simp_all
    then show "U \<le> 2 ^ 40"
      by (simp only: U_def)
  qed
  have Srat: "(of_nat S :: rat) < 2 ^ 48"
  proof -
    have "(of_nat S :: rat) < of_nat (2 ^ 48)"
      using S by (simp only: of_nat_less_iff)
    then show ?thesis
      by simp
  qed
  have "(of_nat (2 ^ j) :: rat) \<le> of_nat S"
    using le by (simp only: of_nat_le_iff)
  then have US: "U \<le> of_nat S"
    by (simp add: U_def)
  then have q1: "1 \<le> q"
    using U(1) by (simp add: q_def pos_le_divide_eq)
  have nq: "n = round_half_even (q * 100)"
    by (simp add: n q_def U_def)
  have "(of_int 100 :: rat) \<le> q * 100"
    using q1 by simp
  then have n100: "100 \<le> n"
    unfolding nq by (rule round_half_even_ge)
  then have "(of_int 100 :: rat) \<le> of_int n"
    by (simp only: of_int_le_iff)
  then have pm1: "1 \<le> pm"
    by (simp add: pm_def)
  have "\<bar>of_int n - q * 100\<bar> \<le> 1 / 2"
    unfolding nq by (rule round_half_even_error)
  then have "of_int n \<le> q * 100 + 1 / 2"
    by linarith
  then have pmq: "pm \<le> q + 1 / 200"
    by (simp add: pm_def field_simps)
  have y_le: "y \<le> of_nat S + U / 200"
  proof -
    have "pm * U \<le> (q + 1 / 200) * U"
      using pmq U(1) by (intro mult_right_mono) simp_all
    also have "\<dots> = of_nat S + U / 200"
      using U(1) by (simp add: q_def algebra_simps)
    finally show ?thesis
      by (simp only: y_def)
  qed
  have y_lt: "y < 2 ^ 48 + 2 ^ 33"
  proof -
    have "U / 200 \<le> 2 ^ 40 / 200"
      using U(2) by (intro divide_right_mono) simp_all
    also have "(2 :: rat) ^ 40 / 200 < 2 ^ 33"
      by simp
    finally show ?thesis
      using y_le Srat by linarith
  qed
  have y1: "1 \<le> y"
  proof -
    have "1 \<le> U"
      by (simp add: U_def)
    then have "1 * 1 \<le> pm * U"
      using pm1 by (intro mult_mono) simp_all
    then show ?thesis
      by (simp add: y_def)
  qed
  have zy: "\<bar>z - y\<bar> < 1 / 25"
  proof -
    have "\<bar>m - pm\<bar> \<le> pm / 2 ^ 53"
      unfolding m_def by (rule round_binary64_rel_error [OF pm1])
    then have "\<bar>m - pm\<bar> * U \<le> pm / 2 ^ 53 * U"
      using U(1) by (intro mult_right_mono) simp_all
    moreover have "\<bar>m - pm\<bar> * U = \<bar>z - y\<bar>"
    proof -
      have "(m - pm) * U = z - y"
        by (simp add: z_def y_def algebra_simps)
      moreover have "\<bar>(m - pm) * U\<bar> = \<bar>m - pm\<bar> * U"
        using U(1) by (simp add: abs_mult)
      ultimately show ?thesis
        by simp
    qed
    moreover have "pm / 2 ^ 53 * U = y / 2 ^ 53"
      by (simp add: y_def)
    moreover have "y / 2 ^ 53 < 1 / 25"
      using y_lt by simp
    ultimately show ?thesis
      by linarith
  qed
  have zy2: "y - 1 / 25 < z" "z < y + 1 / 25"
    using zy by linarith+
  have z_bounds: "0 \<le> z" "z < 2 ^ 64"
  proof -
    show "0 \<le> z"
      using zy2 y1 by linarith
    have "z < 2 ^ 48 + 2 ^ 33 + 1 / 25"
      using zy2 y_lt by linarith
    also have "\<dots> < (2 :: rat) ^ 64"
      by simp
    finally show "z < 2 ^ 64" .
  qed
  have "round_binary64 z = z"
    unfolding z_def m_def U_def by (rule round_binary64_scale [OF pm1])
  then have "\<bar>round_binary64 z\<bar> < 2 powi 1024"
    using z_bounds by simp
  then have "round_f64 z = Finite (round_binary64 z)"
    by (rule round_f64_finite)
  then have rf: "round_f64 (round_binary64 (of_int n / 100) * 2 ^ j) = Finite z"
    using \<open>round_binary64 z = z\<close> by (simp add: z_def m_def pm_def U_def)
  have j2: "(2 :: int) ^ j = 4 * 2 ^ (j - 2)"
  proof -
    have "j = 2 + (j - 2)"
      using j(1) by simp
    then have "(2 :: int) ^ j = 2 ^ 2 * 2 ^ (j - 2)"
      by (metis power_add)
    then show ?thesis
      by simp
  qed
  define a where "a = n * 2 ^ (j - 2)"
  have na: "n * 2 ^ j = 4 * a"
    by (simp add: a_def j2)
  have div: "(n * 2 ^ j) div 100 = a div 25"
    by (simp add: na)
  have Ua: "of_int n * U = 4 * (of_int a :: rat)"
  proof -
    have "(of_int (n * 2 ^ j) :: rat) = of_int (4 * a)"
      by (simp only: na)
    then show ?thesis
      by (simp add: U_def)
  qed
  have ya: "y = of_int a / 25"
    using Ua by (simp add: y_def pm_def)
  have fl: "\<lfloor>z\<rfloor> = a div 25"
  proof (cases "25 dvd n")
    case True
    then obtain k where k: "n = 25 * k"
      by (auto simp: dvd_def)
    have "n \<le> 2 ^ 52"
    proof -
      have "(2 :: rat) ^ 10 \<le> 2 ^ j"
        using j(1) by (intro power_increasing) simp_all
      then have "100 \<le> U"
        by (simp add: U_def)
      then have "100 / U \<le> 1"
        using U(1) by (simp add: pos_divide_le_eq)
      then have "of_nat S * (100 / U) \<le> of_nat S * 1"
        by (intro mult_left_mono) simp_all
      then have "q * 100 \<le> of_nat S"
        by (simp add: q_def)
      also have "(of_nat S :: rat) \<le> 2 ^ 52"
      proof -
        have "(2 :: rat) ^ 48 \<le> 2 ^ 52"
          by simp
        then show ?thesis
          using Srat by linarith
      qed
      finally have "q * 100 \<le> of_int (2 ^ 52)"
        by simp
      then show ?thesis
        unfolding nq by (rule round_half_even_le)
    qed
    then have "\<bar>k\<bar> < 2 ^ 53"
      using n100 by (simp add: k)
    then have ex: "round_binary64 (of_int k * 2 powi (- 2)) = of_int k * 2 powi (- 2)"
      by (intro round_binary64_exact) simp_all
    have "pm = of_int k * 2 powi (- 2)"
      by (simp add: pm_def k power_int_minus_divide)
    then have "m = pm"
      unfolding m_def using ex by (simp only:)
    then have "z = y"
      by (simp add: z_def y_def)
    moreover have "a = 25 * (k * 2 ^ (j - 2))"
      by (simp add: a_def k)
    ultimately have "z = of_int (k * 2 ^ (j - 2))" "a div 25 = k * 2 ^ (j - 2)"
      by (simp_all add: ya)
    then show ?thesis
      by (simp only: floor_of_int)
  next
    case False
    have "coprime (25 :: int) (2 ^ (j - 2))"
    proof -
      have "coprime (5 :: int) 2"
        by simp
      then have "coprime ((5 :: int) ^ 2) (2 ^ (j - 2))"
        by (intro coprime_power_left_iff [THEN iffD2] coprime_power_right_iff [THEN iffD2]) simp
      then show ?thesis
        by simp
    qed
    then have "\<not> 25 dvd a"
      using False by (simp add: a_def coprime_dvd_mult_left_iff)
    then have r: "1 \<le> a mod 25" "a mod 25 \<le> 24"
      using pos_mod_bound [of 25 a] pos_mod_sign [of 25 a] by (simp_all add: dvd_eq_mod_eq_0)
    have "a = 25 * (a div 25) + a mod 25"
      by simp
    then have "(of_int a :: rat) = of_int (25 * (a div 25) + a mod 25)"
      by (simp only:)
    also have "\<dots> = 25 * of_int (a div 25) + of_int (a mod 25)"
      by (simp only: of_int_add of_int_mult of_int_numeral)
    finally have yy: "y = of_int (a div 25) + of_int (a mod 25) / 25"
      unfolding ya by (simp add: add_divide_distrib)
    have "(of_int 1 :: rat) \<le> of_int (a mod 25)" "(of_int (a mod 25) :: rat) \<le> of_int 24"
      using r by (simp_all only: of_int_le_iff)
    then have "of_int (a div 25) + 1 / 25 \<le> y" "y \<le> of_int (a div 25) + 24 / 25"
      by (simp_all add: yy)
    then have "of_int (a div 25) \<le> z" "z < of_int (a div 25) + 1"
      using zy2 by linarith+
    then show ?thesis
      by (rule floor_unique)
  qed
  show ?thesis
    using rf z_bounds fl div by simp
qed

lemma selected_inexact:
  assumes "find fst (unit_conditions s) = Some (c, u, sfx)" "s mod u \<noteq> 0"
  shows "u \<le> s"
    and "u = Kibibyte \<or> u = Mebibyte \<or> u = Gibibyte \<or> u = Tebibyte \<or> u = Pebibyte"
  using assms unfolding unit_conditions_def by (auto split: if_splits)

lemma Parse_String_small:
  assumes "find fst (unit_conditions s) = Some (c, u, sfx)" "s mod u \<noteq> 0" "unat s < 2 ^ 48"
  shows "\<exists>t. Parse pf (String pf s) = Inr t
      \<and> int (unat t)
        = (round_half_even (of_nat (unat s) * 100 / of_nat (unat u)) * int (unat u)) div 100"
proof -
  define n where "n = round_half_even (of_nat (unat s) * 100 / of_nat (unat u))"
  have s0: "s \<noteq> 0"
    using assms(2) by auto
  have us: "unat u \<le> unat s"
    using selected_inexact(1) [OF assms(1,2)] by (simp add: word_le_nat_alt)
  have "u \<noteq> Pebibyte"
    using us assms(3) by (auto simp: unat_unit_values)
  then have "unat u = 2 ^ 10 \<or> unat u = 2 ^ 20 \<or> unat u = 2 ^ 30 \<or> unat u = 2 ^ 40"
    using selected_inexact(2) [OF assms(1,2)] by (auto simp: unat_unit_values)
  then obtain j where j: "unat u = 2 ^ j" "10 \<le> j" "j \<le> 40"
    by fastforce
  have urat: "(of_nat (unat u) :: rat) = 2 ^ j"
    by (simp add: j(1))
  have s53: "unat s < 2 ^ 53"
    using assms(3) by simp
  have j53: "j < 53"
    using j(3) by simp
  have mag: "magnitude s u = of_nat (unat s) / 2 ^ j"
    by (rule magnitude_binary_exact [OF s53 j(1) j53])
  have pm: "printed_magnitude s u = of_int n / 100"
    by (simp add: printed_magnitude_def mag n_def urat)
  have le: "2 ^ j \<le> unat s"
    using us by (simp only: j(1))
  have nn: "n = round_half_even (of_nat (unat s) * 100 / 2 ^ j)"
    by (simp only: n_def urat)
  from reparse_binary_small [OF assms(3) j(2,3) le nn] obtain P
    where P: "round_f64 (round_binary64 (of_int n / 100) * 2 ^ j) = Finite P"
      "0 \<le> P" "P < 2 ^ 64" "\<lfloor>P\<rfloor> = (n * 2 ^ j) div 100"
    by (elim exE conjE)
  define K where "K = \<lfloor>P\<rfloor>"
  have K: "0 \<le> K" "K < 2 ^ 64"
  proof -
    show "0 \<le> K"
      using P(2) by (simp add: K_def)
    have "P < of_int (2 ^ 64)"
      using P(3) by simp
    then show "K < 2 ^ 64"
      unfolding K_def by (simp only: floor_less_iff)
  qed
  have conv: "f64_to_u64 pf (Finite P) = word_of_int K"
    using P(2,3) by (simp add: f64_to_u64_def truncate_rat_def K_def)
  have "Parse pf (String pf s) = Inr (word_of_int K)"
    using Parse_String_selected [OF assms(1) s0, of pf] by (simp only: pm urat P(1) conv)
  moreover have "unat (word_of_int K :: Size) = nat K"
    using K by (simp add: unat_eq_nat_uint word_of_int_inverse take_bit_int_eq_self uint_word_of_int_eq)
  moreover have "K = (n * int (unat u)) div 100"
    using P(4) by (simp add: K_def j(1))
  ultimately show ?thesis
    using K(1) unfolding n_def by (intro exI [of _ "word_of_int K"]) simp
qed

text \<open>
  C1, as the code has it. The canonical string of a size parses back to the size when the
  size is a whole multiple of the unit the string is written in (\<open>unit_exact\<close>): then the
  magnitude is printed in full. All eleven unit constants are such sizes. For every size
  with a selected unit \<open>u\<close>, the string shows the magnitude rounded to two decimals, and
  \<open>Parse\<close> returns the float64 nearest to it, times \<open>u\<close>, truncated: the size comes back
  exactly when this truncation gives it. For a size below \<open>2 ^ 48\<close> that is not a whole
  multiple of its unit this is a condition on integers: with \<open>n\<close> the integer nearest to
  \<open>100 * s / u\<close> (ties to even), \<open>(n * u) div 100 = s\<close>. The composite values 1023, 2293
  (\<open>2.24KiB\<close>), 417280 (\<open>407.50KiB\<close>) and 1632087572 (\<open>1.52GiB\<close>) come back.
\<close>

theorem Parse_String_round_trip:
  "(unit_exact s \<longrightarrow> Parse pf (String pf s) = Inr s)
   \<and> (\<forall>c u sfx. s \<noteq> 0 \<and> find fst (unit_conditions s) = Some (c, u, sfx) \<longrightarrow>
         Parse pf (String pf s)
         = Inr (f64_to_u64 pf
                 (round_f64 (round_binary64 (printed_magnitude s u) * of_nat (unat u)))))
   \<and> (\<forall>c u sfx. find fst (unit_conditions s) = Some (c, u, sfx) \<and> s mod u \<noteq> 0
           \<and> unat s < 2 ^ 48 \<longrightarrow>
         (Parse pf (String pf s) = Inr s \<longleftrightarrow>
            (round_half_even (of_nat (unat s) * 100 / of_nat (unat u)) * int (unat u)) div 100
            = int (unat s)))
   \<and> list_all unit_exact
         [Byte, Kilobyte, Megabyte, Gigabyte, Terabyte, Petabyte,
          Kibibyte, Mebibyte, Gibibyte, Tebibyte, Pebibyte]
   \<and> list_all (\<lambda>t. Parse pf (String pf t) = Inr t) [1023, 2293, 417280, 1632087572]"
proof -
  have small: "Parse pf (String pf s) = Inr s \<longleftrightarrow>
      (round_half_even (of_nat (unat s) * 100 / of_nat (unat u)) * int (unat u)) div 100
      = int (unat s)"
    if "find fst (unit_conditions s) = Some (c, u, sfx)" "s mod u \<noteq> 0" "unat s < 2 ^ 48"
    for c u sfx
  proof -
    from Parse_String_small [OF that, of pf] obtain t
      where t: "Parse pf (String pf s) = Inr t"
        "int (unat t)
         = (round_half_even (of_nat (unat s) * 100 / of_nat (unat u)) * int (unat u)) div 100"
      by (elim exE conjE)
    have "t = s \<longleftrightarrow> int (unat t) = int (unat s)"
      by (simp add: word_unat_eq_iff)
    then show ?thesis
      by (simp add: t)
  qed
  have a: "String pf 1023 = ''1023B''" "String pf 2293 = ''2.24KiB''"
      "String pf 417280 = ''407.50KiB''" "String pf 1632087572 = ''1.52GiB''"
    by (simp_all add: string_eval char_eval f64_eval)
  have b: "Parse pf ''1023B'' = Inr 1023" "Parse pf ''2.24KiB'' = Inr 2293"
      "Parse pf ''407.50KiB'' = Inr 417280" "Parse pf ''1.52GiB'' = Inr 1632087572"
    by (simp_all add: parse_eval)
  show ?thesis
    using Parse_String_unit_exact [of s pf] Parse_String_selected [of s _ _ _ pf] small a b
    by (simp add: unit_exact_units)
qed

theorem Parse_String_round_trip_witness:
  "unit_exact (5 * Terabyte)
   \<and> String example_platform (5 * Terabyte) = ''5TB''
   \<and> Parse example_platform (String example_platform (5 * Terabyte)) = Inr (5 * Terabyte)
   \<and> find fst (unit_conditions 2293) = Some (True, Kibibyte, ''KiB'')
   \<and> (2293 :: Size) mod Kibibyte \<noteq> 0
   \<and> printed_magnitude 2293 Kibibyte = 224 / 100
   \<and> round_half_even (of_nat (unat (2293 :: Size)) * 100 / of_nat (unat Kibibyte)) = 224
   \<and> (224 * int (unat Kibibyte)) div 100 = int (unat (2293 :: Size))
   \<and> Parse example_platform (String example_platform 2293) = Inr 2293"
proof -
  have u: "unit_exact (5 * Terabyte)"
    unfolding unit_exact_nat Let_def by (simp add: unit_values)
  have s: "String example_platform (5 * Terabyte) = ''5TB''"
    by (simp add: string_eval char_eval f64_eval)
  have sel: "find fst (unit_conditions 2293) = Some (True, Kibibyte, ''KiB'')"
    by (simp add: unit_conditions_def unit_values)
  have ne: "(2293 :: Size) mod Kibibyte \<noteq> 0" "unat (2293 :: Size) < 2 ^ 48"
    by (simp_all add: unit_values)
  have mag: "magnitude 2293 Kibibyte = 2293 / 1024"
    by (simp add: magnitude_def f64_eval unit_values)
  have pm: "printed_magnitude 2293 Kibibyte = 224 / 100"
    by (simp add: printed_magnitude_def mag f64_eval)
  have n: "round_half_even (of_nat (unat (2293 :: Size)) * 100 / of_nat (unat Kibibyte)) = 224"
    by (simp add: unat_unit_values f64_eval)
  have v: "(224 * int (unat Kibibyte)) div 100 = int (unat (2293 :: Size))"
    by (simp add: unat_unit_values)
  have "Parse example_platform (String example_platform 2293) = Inr 2293"
    using Parse_String_round_trip [of 2293 example_platform] sel ne n v by simp
  moreover have "Parse example_platform (String example_platform (5 * Terabyte)) = Inr (5 * Terabyte)"
    using Parse_String_round_trip [of "5 * Terabyte" example_platform] u by simp
  ultimately show ?thesis
    using u s sel ne(1) pm n v by simp
qed

text \<open>
  The claim as stated fails at 1025 bytes: the canonical string is \<open>1.00KiB\<close>, which parses
  to 1024.
\<close>

theorem Parse_String_1025_counterexample:
  "String example_platform 1025 = ''1.00KiB''
   \<and> Parse example_platform (String example_platform 1025) = Inr 1024
   \<and> (1024 :: Size) \<noteq> 1025"
proof -
  have s: "String example_platform 1025 = ''1.00KiB''"
    by (simp add: string_eval char_eval f64_eval)
  have p: "Parse example_platform ''1.00KiB'' = Inr 1024"
    by (simp add: parse_eval)
  show ?thesis
    using s p by simp
qed

section \<open>Floor and Round give strings without a decimal point\<close>

text \<open>
  C7. For every size, the canonical strings of \<open>Floor s\<close> and of \<open>Round s\<close> hold no
  decimal point: both results are whole multiples of the unit they are printed in.
\<close>

theorem Floor_Round_no_decimal_point:
  "CHR ''.'' \<notin> set (String pf (Floor s)) \<and> CHR ''.'' \<notin> set (String pf (Round pf s))
   \<and> unit_exact (Floor s) \<and> unit_exact (Round pf s)"
  by (simp add: no_dot_unit_exact unit_exact_Floor unit_exact_Round)

lemma Round_loop_find:
  "Round_loop pf us s =
     (case find (\<lambda>u. u \<le> s) us of None \<Rightarrow> s | Some u \<Rightarrow> round_quotient pf s u * u)"
  by (induction us) (simp_all add: round_quotient_def)

lemma find_units:
  "find (\<lambda>u. u \<le> s) units =
     (let n = unat s
      in if 2 ^ 50 \<le> n then Some Pebibyte
         else if 10 ^ 15 \<le> n then Some Petabyte
         else if 2 ^ 40 \<le> n then Some Tebibyte
         else if 10 ^ 12 \<le> n then Some Terabyte
         else if 2 ^ 30 \<le> n then Some Gibibyte
         else if 10 ^ 9 \<le> n then Some Gigabyte
         else if 2 ^ 20 \<le> n then Some Mebibyte
         else if 10 ^ 6 \<le> n then Some Megabyte
         else if 2 ^ 10 \<le> n then Some Kibibyte
         else if 10 ^ 3 \<le> n then Some Kilobyte
         else None)"
  by (simp add: units_def Let_def word_le_nat_alt unat_unit_values)

lemma find_units_in_set:
  assumes "find (\<lambda>u. u \<le> s) units = Some u"
  shows "1000 \<le> unat u" "unat u < 2 ^ 53"
proof -
  have "u \<in> set units"
    using assms by (auto simp: find_Some_iff in_set_conv_nth)
  then show "1000 \<le> unat u" "unat u < 2 ^ 53"
    by (auto simp: units_def unat_unit_values)
qed

lemma nearest_binary:
  assumes "unat s < 2 ^ 53" "unat u = 2 ^ b" "9 \<le> b" "b < 53"
  shows "unat (round_quotient pf s u * u) = (2 * unat s + unat u) div (2 * unat u) * unat u"
proof -
  define n where "n = unat s"
  define B where "B = unat u"
  define K where "K = (2 * n + B) div (2 * B)"
  have B: "0 < B" "B < 2 ^ 53"
  proof -
    show "0 < B"
      by (simp add: B_def assms(2))
    have "(2 :: nat) ^ b < 2 ^ 53"
      using assms(4) by (intro power_strict_increasing) simp_all
    then show "B < 2 ^ 53"
      by (simp only: B_def assms(2))
  qed
  have rq: "unat (round_quotient pf s u) = K"
    using round_quotient_binary_exact [OF assms, of pf] by (simp add: K_def n_def B_def)
  have "K * (2 * B) \<le> 2 * n + B"
    unfolding K_def by simp
  then have "2 * (K * B) \<le> 2 * n + B"
    by (simp add: mult.assoc mult.left_commute)
  then have "K * B < 2 ^ 64"
    using assms(1) B(2) by (simp add: n_def)
  then have "unat (round_quotient pf s u) * unat u < 2 ^ LENGTH(64)"
    by (simp add: rq B_def)
  then have "unat (round_quotient pf s u * u) = unat (round_quotient pf s u) * unat u"
    by (metis unat_mult_lem)
  then show ?thesis
    by (simp add: rq K_def n_def B_def)
qed

lemma nearest_decimal:
  assumes "512 \<le> unat u" "unat u < 2 ^ 53" "unat u \<le> unat s" "4 * unat s < 5 * unat u"
    and "unat s < 2 ^ 53"
  shows "unat (round_quotient pf s u * u) = (2 * unat s + unat u) div (2 * unat u) * unat u"
  using round_quotient_decimal(1) [OF assms, of pf] round_quotient_decimal(2) [OF assms]
  by simp

lemma Round_nearest:
  assumes "unat s < 2 ^ 53"
  shows "unat (Round pf s) =
    (case find (\<lambda>u. u \<le> s) units of
       None \<Rightarrow> unat s
     | Some u \<Rightarrow> (2 * unat s + unat u) div (2 * unat u) * unat u)"
proof -
  define n where "n = unat s"
  have R: "Round pf s
           = (case find (\<lambda>u. u \<le> s) units of None \<Rightarrow> s | Some u \<Rightarrow> round_quotient pf s u * u)"
    by (simp add: Round_def Round_loop_find)
  consider "2 ^ 50 \<le> n" | "10 ^ 15 \<le> n" "n < 2 ^ 50" | "2 ^ 40 \<le> n" "n < 10 ^ 15"
    | "10 ^ 12 \<le> n" "n < 2 ^ 40" | "2 ^ 30 \<le> n" "n < 10 ^ 12" | "10 ^ 9 \<le> n" "n < 2 ^ 30"
    | "2 ^ 20 \<le> n" "n < 10 ^ 9" | "10 ^ 6 \<le> n" "n < 2 ^ 20" | "2 ^ 10 \<le> n" "n < 10 ^ 6"
    | "10 ^ 3 \<le> n" "n < 2 ^ 10" | "n < 10 ^ 3"
    by linarith
  then show ?thesis
  proof cases
    case 1
    then have f: "find (\<lambda>u. u \<le> s) units = Some Pebibyte"
      by (simp add: find_units n_def)
    show ?thesis
      unfolding R f option.case
      by (rule nearest_binary [OF assms, of _ 50]) (simp_all add: unat_unit_values)
  next
    case 2
    then have f: "find (\<lambda>u. u \<le> s) units = Some Petabyte"
      by (simp add: find_units n_def)
    show ?thesis
      unfolding R f option.case
      using 2 assms by (intro nearest_decimal) (simp_all add: unat_unit_values n_def)
  next
    case 3
    then have f: "find (\<lambda>u. u \<le> s) units = Some Tebibyte"
      by (simp add: find_units n_def)
    show ?thesis
      unfolding R f option.case
      by (rule nearest_binary [OF assms, of _ 40]) (simp_all add: unat_unit_values)
  next
    case 4
    then have f: "find (\<lambda>u. u \<le> s) units = Some Terabyte"
      by (simp add: find_units n_def)
    show ?thesis
      unfolding R f option.case
      using 4 assms by (intro nearest_decimal) (simp_all add: unat_unit_values n_def)
  next
    case 5
    then have f: "find (\<lambda>u. u \<le> s) units = Some Gibibyte"
      by (simp add: find_units n_def)
    show ?thesis
      unfolding R f option.case
      by (rule nearest_binary [OF assms, of _ 30]) (simp_all add: unat_unit_values)
  next
    case 6
    then have f: "find (\<lambda>u. u \<le> s) units = Some Gigabyte"
      by (simp add: find_units n_def)
    show ?thesis
      unfolding R f option.case
      using 6 assms by (intro nearest_decimal) (simp_all add: unat_unit_values n_def)
  next
    case 7
    then have f: "find (\<lambda>u. u \<le> s) units = Some Mebibyte"
      by (simp add: find_units n_def)
    show ?thesis
      unfolding R f option.case
      by (rule nearest_binary [OF assms, of _ 20]) (simp_all add: unat_unit_values)
  next
    case 8
    then have f: "find (\<lambda>u. u \<le> s) units = Some Megabyte"
      by (simp add: find_units n_def)
    show ?thesis
      unfolding R f option.case
      using 8 assms by (intro nearest_decimal) (simp_all add: unat_unit_values n_def)
  next
    case 9
    then have f: "find (\<lambda>u. u \<le> s) units = Some Kibibyte"
      by (simp add: find_units n_def)
    show ?thesis
      unfolding R f option.case
      by (rule nearest_binary [OF assms, of _ 10]) (simp_all add: unat_unit_values)
  next
    case 10
    then have f: "find (\<lambda>u. u \<le> s) units = Some Kilobyte"
      by (simp add: find_units n_def)
    show ?thesis
      unfolding R f option.case
      using 10 assms by (intro nearest_decimal) (simp_all add: unat_unit_values n_def)
  next
    case 11
    then have f: "find (\<lambda>u. u \<le> s) units = None"
      by (simp add: find_units n_def)
    show ?thesis
      unfolding R f option.case by simp
  qed
qed

section \<open>Round: float64 rounding, nearest multiple below \<open>2 ^ 53\<close>\<close>

text \<open>
  C5, as the code has it. \<open>Round s\<close> is \<open>s\<close> when no unit is at most \<open>s\<close>, that is when
  \<open>s < 1000\<close>. Otherwise, with \<open>u\<close> the first unit of the list with \<open>u \<le> s\<close>, it is the
  float64 quotient of \<open>s\<close> by \<open>u\<close>, rounded half away from zero, times \<open>u\<close> in unsigned
  64-bit arithmetic. For \<open>s < 2 ^ 53\<close> nothing is lost in float64 and the result is the
  whole multiple of \<open>u\<close> nearest to \<open>s\<close>, a tie going up:
  \<open>((2 * s + u) div (2 * u)) * u\<close>.
\<close>

theorem Round_first_unit_nearest:
  "Round pf s =
     (case find (\<lambda>u. u \<le> s) units of
        None \<Rightarrow> s
      | Some u \<Rightarrow> word_of_int \<lfloor>magnitude s u + 1 / 2\<rfloor> * u)
   \<and> (unat s < 2 ^ 53 \<longrightarrow>
        unat (Round pf s) =
          (case find (\<lambda>u. u \<le> s) units of
             None \<Rightarrow> unat s
           | Some u \<Rightarrow> (2 * unat s + unat u) div (2 * unat u) * unat u))
   \<and> ((find (\<lambda>u. u \<le> s) units = None) = (s < 1000))"
proof -
  have "Round pf s =
     (case find (\<lambda>u. u \<le> s) units of
        None \<Rightarrow> s
      | Some u \<Rightarrow> word_of_int \<lfloor>magnitude s u + 1 / 2\<rfloor> * u)"
  proof (cases "find (\<lambda>u. u \<le> s) units")
    case None
    then show ?thesis
      by (simp add: Round_def Round_loop_find)
  next
    case (Some u)
    have "round_quotient pf s u = word_of_int \<lfloor>magnitude s u + 1 / 2\<rfloor>"
      using find_units_in_set [OF Some] by (intro round_quotient_value(1)) simp_all
    then show ?thesis
      by (simp add: Round_def Round_loop_find Some)
  qed
  then show ?thesis
    using Round_nearest [of s pf] find_units_None_iff [of s] by blast
qed

theorem Round_first_unit_nearest_witness:
  "unat (2695091978 :: Size) < 2 ^ 53
   \<and> find (\<lambda>u. u \<le> 2695091978) units = Some Gibibyte
   \<and> unat (Round example_platform 2695091978) = 3 * unat Gibibyte"
proof -
  have lt: "unat (2695091978 :: Size) < 2 ^ 53"
    by simp
  have f: "find (\<lambda>u. u \<le> 2695091978) units = Some Gibibyte"
    by (simp add: units_def unit_values)
  have "unat (2695091978 :: Size) < 2 ^ 53 \<longrightarrow>
        unat (Round example_platform 2695091978) =
          (case find (\<lambda>u. u \<le> 2695091978) units of
             None \<Rightarrow> unat (2695091978 :: Size)
           | Some u \<Rightarrow> (2 * unat (2695091978 :: Size) + unat u) div (2 * unat u) * unat u)"
    using Round_first_unit_nearest [of example_platform 2695091978] by blast
  then have "unat (Round example_platform 2695091978)
        = (2 * unat (2695091978 :: Size) + unat Gibibyte) div (2 * unat Gibibyte) * unat Gibibyte"
    using lt unfolding f option.case by blast
  then have "unat (Round example_platform 2695091978) = 3 * unat Gibibyte"
    by (simp add: unat_unit_values)
  then show ?thesis
    using lt f by blast
qed

text \<open>
  The claim as stated fails at \<open>2 ^ 53 + 2 ^ 49 - 1\<close>: \<open>float64\<close> of it is
  \<open>2 ^ 53 + 2 ^ 49\<close>, the quotient by \<open>Pebibyte\<close> is 8.5 and rounds to 9, while the nearest
  multiple of \<open>Pebibyte\<close> is the eighth.
\<close>

theorem Round_not_nearest_counterexample:
  "Round example_platform 9570149208162303 = 9 * Pebibyte
   \<and> unat (9570149208162303 :: Size) - 8 * unat Pebibyte
       < 9 * unat Pebibyte - unat (9570149208162303 :: Size)"
proof -
  have "Round example_platform 9570149208162303 = 9 * Pebibyte"
    by (simp add: Round_def units_def f64_eval unit_values)
  then show ?thesis
    by (simp add: unat_unit_values)
qed

section \<open>The fast path of Parse\<close>

text \<open>
  \<^verbatim>\<open>ParseFloat\<close> on a decimal literal with an exponent: the scanner reads the mantissa up
  to the letter \<^verbatim>\<open>e\<close>, then the exponent, and the value is rounded to float64.
\<close>

lemma readFloat_decimal_literal:
  assumes "s \<noteq> []" "is_digit (hd s) \<or> hd s = CHR ''.''"
    and "lower_ascii (hd (tl s)) \<noteq> CHR ''x''"
  shows "readFloat s =
    (case scan_mantissa False scan_init s of
       (st, s3) \<Rightarrow>
         if \<not> sawdigits st then None
         else
           (case read_exponent False s3 of
              None \<Rightarrow> None
            | Some (e, us, s4) \<Rightarrow>
                if (underscores st \<or> us) \<and> \<not> underscoreOK (take (length s - length s4) s)
                then None
                else Some (FloatLit False False (mantissa st)
                       (if mantissa st \<noteq> 0
                        then (if sawdot st then dp st else int (nd st)) + e - int (nd st)
                        else 0),
                     length s - length s4)))"
proof -
  obtain c t where s: "s = c # t"
    using assms(1) by (cases s) auto
  have c: "c \<noteq> CHR ''+''" "c \<noteq> CHR ''-''"
    using assms(2) plain_char(1) [of c] by (auto simp: s)
  have neg: "(case s of c # t \<Rightarrow> c = CHR ''-'' | [] \<Rightarrow> False) = False"
    using c by (simp add: s)
  have s1: "(case s of c # t \<Rightarrow> if c = CHR ''+'' \<or> c = CHR ''-'' then t else s | [] \<Rightarrow> s) = s"
    using c by (simp add: s)
  have hex: "(case s of c0 # c1 # c2 # t \<Rightarrow> c0 = CHR ''0'' \<and> lower_ascii c1 = CHR ''x''
                 | _ \<Rightarrow> False) = False"
    using assms(3) by (auto simp: s split: list.splits)
  show ?thesis
    unfolding readFloat_def neg s1
    by (simp only: Let_def hex if_False)
qed

lemma scan_mantissa_stop:
  assumes "\<not> is_digit c" "c \<noteq> CHR ''.''" "c \<noteq> CHR ''_''"
  shows "scan_mantissa False st (c # rest) = (st, c # rest)"
  using assms by simp

lemma scan_decimal_rest:
  assumes "list_all is_digit ds" "is_fraction fr"
    and "\<not> is_digit c" "c \<noteq> CHR ''.''" "c \<noteq> CHR ''_''"
  shows "\<exists>st. scan_mantissa False scan_init (ds @ fr @ c # rest) = (st, c # rest)
      \<and> mantissa st = digits_value (ds @ drop 1 fr) \<and> \<not> underscores st
      \<and> sawdigits st = (ds @ drop 1 fr \<noteq> [])
      \<and> (if sawdot st then dp st else int (nd st)) - int (nd st) = - int (length (drop 1 fr))"
proof (rule is_fraction_cases [OF assms(2)])
  assume fr: "fr = []"
  define st where "st = foldl digit_step scan_init ds"
  have "scan_mantissa False scan_init (ds @ c # rest) = scan_mantissa False st (c # rest)"
    unfolding st_def by (rule scan_mantissa_digits [OF assms(1)])
  then have "scan_mantissa False scan_init (ds @ fr @ c # rest) = (st, c # rest)"
    using assms(3-5) by (simp add: fr)
  moreover have "mantissa st = digits_value (ds @ drop 1 fr)"
    using foldl_digit_step_value(1) [of scan_init ds] assms(1)
    by (simp add: st_def digits_value_def scan_init_def fr)
  moreover have "\<not> sawdot st" "\<not> underscores st" "sawdigits st = (ds @ drop 1 fr \<noteq> [])"
    by (simp_all add: st_def foldl_digit_step_flags scan_init_def fr)
  ultimately show ?thesis
    by (simp add: fr)
next
  fix fs
  assume fr: "fr = CHR ''.'' # fs" and fs: "list_all is_digit fs"
  define st1 where "st1 = foldl digit_step scan_init ds"
  define st2 where "st2 = st1\<lparr>sawdot := True, dp := int (nd st1)\<rparr>"
  define st where "st = foldl digit_step st2 fs"
  have f1: "\<not> sawdot st1" "\<not> underscores st1" "sawdigits st1 = (ds \<noteq> [])"
    by (simp_all add: st1_def foldl_digit_step_flags scan_init_def)
  have v1: "mantissa st1 = digits_value ds" "nd st1 = 0 \<longrightarrow> mantissa st1 = 0"
    using foldl_digit_step_value(1,2) [of scan_init ds] assms(1)
    by (simp_all add: st1_def digits_value_def scan_init_def)
  have "scan_mantissa False scan_init (ds @ CHR ''.'' # fs @ c # rest)
        = scan_mantissa False st1 (CHR ''.'' # fs @ c # rest)"
    unfolding st1_def by (rule scan_mantissa_digits [OF assms(1)])
  also have "\<dots> = scan_mantissa False st2 (fs @ c # rest)"
    using f1(1) by (simp add: st2_def)
  also have "\<dots> = scan_mantissa False st (c # rest)"
    unfolding st_def by (rule scan_mantissa_digits [OF fs])
  also have "\<dots> = (st, c # rest)"
    by (rule scan_mantissa_stop [OF assms(3-5)])
  finally have sc: "scan_mantissa False scan_init (ds @ fr @ c # rest) = (st, c # rest)"
    by (simp add: fr)
  have inv2: "nd st2 = 0 \<longrightarrow> mantissa st2 = 0"
    using v1(2) by (simp add: st2_def)
  have v: "mantissa st = foldl (\<lambda>a c. a * 10 + digit_val c) (mantissa st2) fs"
      "dp st - int (nd st) = dp st2 - int (nd st2) - int (length fs)"
    using foldl_digit_step_value(1,3) [OF inv2 fs] by (simp_all add: st_def)
  have "mantissa st = digits_value (ds @ drop 1 fr)"
    using v(1) v1(1) by (simp add: digits_value_append st2_def fr)
  moreover have sd: "sawdot st" "\<not> underscores st" "sawdigits st = (ds @ drop 1 fr \<noteq> [])"
    using f1 by (auto simp: st_def foldl_digit_step_flags st2_def fr)
  moreover have "(if sawdot st then dp st else int (nd st)) - int (nd st) = - int (length (drop 1 fr))"
    using v(2) sd(1) by (simp add: st2_def fr)
  ultimately show ?thesis
    using sc by blast
qed

lemma foldl_digits_mono: "a \<le> foldl (\<lambda>a c. a * 10 + digit_val c) a es"
proof (induction es arbitrary: a)
  case Nil
  then show ?case by simp
next
  case (Cons c es)
  have "a \<le> a * 10 + digit_val c"
    by simp
  also have "\<dots> \<le> foldl (\<lambda>a c. a * 10 + digit_val c) (a * 10 + digit_val c) es"
    by (rule Cons.IH)
  finally show ?case
    by simp
qed

lemma scan_exponent_digits:
  assumes "list_all is_digit es" "foldl (\<lambda>a c. a * 10 + digit_val c) e es < 10000"
  shows "scan_exponent e us es = (foldl (\<lambda>a c. a * 10 + digit_val c) e es, us, [])"
  using assms
proof (induction es arbitrary: e)
  case Nil
  then show ?case by simp
next
  case (Cons c es)
  have c: "is_digit c" "c \<noteq> CHR ''_''"
    using Cons.prems(1) is_digit_simps(1) [of c] by simp_all
  have "e \<le> foldl (\<lambda>a c. a * 10 + digit_val c) e (c # es)"
    by (rule foldl_digits_mono)
  then have e: "e < 10000"
    using Cons.prems(2) by simp
  have "scan_exponent e us (c # es) = scan_exponent (e * 10 + digit_val c) us es"
    using c e by simp
  also have "\<dots> = (foldl (\<lambda>a c. a * 10 + digit_val c) (e * 10 + digit_val c) es, us, [])"
    using Cons.prems by (intro Cons.IH) simp_all
  finally show ?case
    by simp
qed

lemma read_exponent_digits:
  assumes "lower_ascii c = CHR ''e''"
    and "sg = [] \<or> sg = [CHR ''+''] \<or> sg = [CHR ''-'']"
    and "list_all is_digit es" "es \<noteq> []" "digits_value es < 10000"
  shows "read_exponent False (c # sg @ es)
    = Some (if sg = [CHR ''-''] then - int (digits_value es) else int (digits_value es), False, [])"
proof -
  obtain d es' where es: "es = d # es'"
    using assms(4) by (cases es) auto
  have d: "is_digit d" "d \<noteq> CHR ''+''" "d \<noteq> CHR ''-''"
    using assms(3) is_digit_simps(3,4) [of d] by (simp_all add: es)
  have sc: "scan_exponent 0 False es = (digits_value es, False, [])"
    using scan_exponent_digits [OF assms(3), of 0 False] assms(5)
    by (simp add: digits_value_def)
  consider "sg = []" | "sg = [CHR ''+'']" | "sg = [CHR ''-'']"
    using assms(2) by blast
  then show ?thesis
  proof cases
    case 1
    then show ?thesis
      using d sc assms(1) by (simp add: read_exponent_def es)
  next
    case 2
    then show ?thesis
      using d sc assms(1) by (simp add: read_exponent_def es)
  next
    case 3
    then show ?thesis
      using d sc assms(1) by (simp add: read_exponent_def es)
  qed
qed

lemma exponent_letter:
  assumes "lower_ascii c = CHR ''e''"
  shows "\<not> is_digit c" "c \<noteq> CHR ''.''" "c \<noteq> CHR ''_''" "lower_ascii c \<noteq> CHR ''x''"
    "c = CHR ''e'' \<or> c = CHR ''E''"
proof -
  show e: "c = CHR ''e'' \<or> c = CHR ''E''"
  proof (cases "is_upper c")
    case True
    then have "char_of (byte c + 32) = CHR ''e''"
      using assms by (simp add: lower_ascii_def)
    then have "of_char (char_of (byte c + 32) :: char) = (of_char CHR ''e'' :: nat)"
      by simp
    moreover have "byte c + 32 < 256"
      using True by (simp add: is_upper_def byte_def)
    ultimately have "byte c = 69"
      by (simp add: byte_def)
    then have "of_char c = (of_char CHR ''E'' :: nat)"
      by (simp add: byte_def)
    then have "c = CHR ''E''"
      by (simp only: of_char_eq_iff)
    then show ?thesis ..
  next
    case False
    then show ?thesis
      using assms by (simp add: lower_ascii_def)
  qed
  then show "\<not> is_digit c" "c \<noteq> CHR ''.''" "c \<noteq> CHR ''_''"
    by (auto simp: is_digit_def byte_def)
  show "lower_ascii c \<noteq> CHR ''x''"
    using assms by simp
qed

lemma ParseFloat_scientific:
  assumes "list_all is_digit ds" "is_fraction fr" "ds @ drop 1 fr \<noteq> []"
    and "lower_ascii c = CHR ''e''"
    and "sg = [] \<or> sg = [CHR ''+''] \<or> sg = [CHR ''-'']"
    and "list_all is_digit es" "es \<noteq> []" "digits_value es < 10000"
  shows "ParseFloat (ds @ fr @ c # sg @ es) =
    (if round_f64 (scientific_value ds (drop 1 fr) sg es) = PInf
     then Inl (NumError (ds @ fr @ c # sg @ es) ErrRange)
     else Inr (round_f64 (scientific_value ds (drop 1 fr) sg es)))"
proof -
  define s where "s = ds @ fr @ c # sg @ es"
  define e where "e = (if sg = [CHR ''-''] then - int (digits_value es) else int (digits_value es))"
  note cl = exponent_letter [OF assms(4)]
  have body: "list_all (\<lambda>c. is_digit c \<or> c = CHR ''.'') (ds @ fr)" "ds @ fr \<noteq> []"
  proof -
    show "list_all (\<lambda>c. is_digit c \<or> c = CHR ''.'') (ds @ fr)"
      using assms(1) by (rule_tac is_fraction_cases [OF assms(2)]) (auto simp: list_all_iff)
    show "ds @ fr \<noteq> []"
      using assms(3) by (cases fr) auto
  qed
  obtain b body' where b: "ds @ fr = b # body'"
    using body(2) by (cases "ds @ fr") auto
  have sb: "s = b # body' @ c # sg @ es"
    using b by (simp add: s_def)
  have hb: "is_digit b \<or> b = CHR ''.''"
    using body(1) by (simp add: b)
  have h2: "lower_ascii (hd (tl s)) \<noteq> CHR ''x''"
  proof (cases body')
    case Nil
    then show ?thesis
      using cl(4) by (simp add: sb)
  next
    case (Cons b2 body'')
    then have "is_digit b2 \<or> b2 = CHR ''.''"
      using body(1) by (simp add: b)
    then show ?thesis
      using plain_char(1) [of b2] by (simp add: sb Cons)
  qed
  have ne: "s \<noteq> []" and hd: "is_digit (hd s) \<or> hd s = CHR ''.''"
    using hb by (simp_all add: sb)
  have sp: "special s = None"
    using plain_char(2) [OF hd] by (intro special_None) simp
  from scan_decimal_rest [OF assms(1,2) cl(1-3), of "sg @ es"] obtain st
    where sc: "scan_mantissa False scan_init s = (st, c # sg @ es)"
      and st: "mantissa st = digits_value (ds @ drop 1 fr)" "\<not> underscores st"
        "sawdigits st = (ds @ drop 1 fr \<noteq> [])"
        "(if sawdot st then dp st else int (nd st)) - int (nd st) = - int (length (drop 1 fr))"
    unfolding s_def by (elim exE conjE)
  have sd: "sawdigits st"
    using st(3) assms(3) by simp
  have re: "read_exponent False (c # sg @ es) = Some (e, False, [])"
    unfolding e_def by (rule read_exponent_digits [OF assms(4-8)])
  define m where "m = digits_value (ds @ drop 1 fr)"
  define x where "x = (if m \<noteq> 0 then - int (length (drop 1 fr)) + e else 0)"
  have dpst: "(if sawdot st then dp st else int (nd st)) + e - int (nd st)
              = - int (length (drop 1 fr)) + e"
    using st(4) by simp
  have stm: "mantissa st = m"
    using st(1) by (simp only: m_def)
  have rf: "readFloat s = Some (FloatLit False False m x, length s)"
    by (subst readFloat_decimal_literal [OF ne hd h2])
      (simp add: sc sd stm st(2) re dpst x_def)
  have val: "float_lit_value (FloatLit False False m x) = scientific_value ds (drop 1 fr) sg es"
  proof (cases "m = 0")
    case True
    then show ?thesis
      by (simp add: float_lit_value_def scientific_value_def decimal_value_def m_def x_def)
  next
    case False
    define k where "k = length (drop 1 fr)"
    have "(10 :: rat) powi (- int k + e) = 10 powi (- int k) * 10 powi e"
      by (rule power_int_add) simp
    also have "\<dots> = 10 powi e / 10 ^ k"
      by (simp add: power_int_minus_divide)
    finally have "(10 :: rat) powi (- int (length (drop 1 fr)) + e)
          = 10 powi e / 10 ^ length (drop 1 fr)"
      by (simp only: k_def)
    then show ?thesis
      using False
      by (simp add: float_lit_value_def scientific_value_def decimal_value_def m_def x_def e_def)
  qed
  have "0 \<le> scientific_value ds (drop 1 fr) sg es"
    by (simp add: scientific_value_def decimal_value_def)
  then have "round_f64 (scientific_value ds (drop 1 fr) sg es) \<noteq> NInf"
    by (rule round_f64_nonneg_not_NInf)
  then have "ParseFloat s =
    (if round_f64 (scientific_value ds (drop 1 fr) sg es) = PInf
     then Inl (NumError s ErrRange)
     else Inr (round_f64 (scientific_value ds (drop 1 fr) sg es)))"
    by (simp add: ParseFloat_def sp rf val Let_def)
  then show ?thesis
    by (simp only: s_def)
qed

lemma round_binary64_ge_pow2:
  assumes "2 powi k \<le> x" "- 1022 \<le> k"
  shows "2 powi k \<le> round_binary64 x"
proof -
  have pos: "0 < x"
    using assms(1) two_powi_pos [of k] by linarith
  define L where "L = ilog2 x"
  have L: "2 powi L \<le> x" "x < 2 powi (L + 1)"
    using ilog2_bounds [OF pos] by (simp_all add: L_def)
  have "(2 :: rat) powi k < 2 powi (L + 1)"
    using assms(1) L(2) by linarith
  then have kL: "k \<le> L"
    by (simp add: two_powi_less_iff)
  then have mx: "max L (- 1022) = L"
    using assms(2) by simp
  define e where "e = L - 52"
  have "52 + e = L"
    by (simp add: e_def)
  then have "(2 :: rat) powi L = 2 powi 52 * 2 powi e"
    using two_powi_add [of 52 e] by (simp only:)
  then have "(2 :: rat) powi 52 * 2 powi e \<le> x"
    using L(1) by simp
  then have "(2 :: rat) powi 52 \<le> x / 2 powi e"
    by (simp add: pos_le_divide_eq)
  then have "(of_int (2 ^ 52) :: rat) \<le> x / 2 powi e"
    by simp
  then have "2 ^ 52 \<le> round_half_even (x / 2 powi e)"
    by (rule round_half_even_ge)
  then have "(of_int (2 ^ 52) :: rat) \<le> of_int (round_half_even (x / 2 powi e))"
    by (simp only: of_int_le_iff)
  then have "(2 :: rat) powi 52 * 2 powi e \<le> of_int (round_half_even (x / 2 powi e)) * 2 powi e"
    by (simp add: mult_right_mono)
  moreover have "round_binary64 x = of_int (round_half_even (x / 2 powi e)) * 2 powi e"
    using pos by (simp add: round_binary64_def Let_def L_def [symmetric] mx e_def)
  moreover have "(2 :: rat) powi k \<le> 2 powi L"
    using kL by (simp add: two_powi_le_iff)
  ultimately show ?thesis
    using \<open>(2 :: rat) powi L = 2 powi 52 * 2 powi e\<close> by linarith
qed

lemma round_f64_overflow:
  assumes "2 powi 1024 \<le> x"
  shows "round_f64 x = PInf"
  using round_binary64_ge_pow2 [OF assms] by (simp add: round_f64_def Let_def)

lemma match_here_exponent:
  assumes "list_all is_digit ds" "is_fraction fr" "r = [] \<or> \<not> is_lower (hd r)"
  shows "match_here (ds @ fr @ CHR ''e'' # r) = Some (ds, fr, ''e'')"
proof -
  have c: "is_lower CHR ''e''" "\<not> is_digit CHR ''e''" "CHR ''e'' \<noteq> CHR ''.''"
    by (simp_all add: is_lower_def is_digit_def byte_def)
  have tl: "takeWhile is_lower r = []"
    using assms(3) by (cases r) auto
  show ?thesis
  proof (rule is_fraction_cases [OF assms(2)])
    assume fr: "fr = []"
    have "takeWhile is_digit (ds @ CHR ''e'' # r) = ds"
        "dropWhile is_digit (ds @ CHR ''e'' # r) = CHR ''e'' # r"
      using takeWhile_digits_prefix [OF assms(1), of "CHR ''e'' # r"] c(2) by simp_all
    then show ?thesis
      using tl c(1) by (simp add: match_here_def fr)
  next
    fix fs
    assume fr: "fr = CHR ''.'' # fs" and fs: "list_all is_digit fs"
    have a: "takeWhile is_digit (ds @ CHR ''.'' # fs @ CHR ''e'' # r) = ds"
        "dropWhile is_digit (ds @ CHR ''.'' # fs @ CHR ''e'' # r) = CHR ''.'' # fs @ CHR ''e'' # r"
      using takeWhile_digits_prefix [OF assms(1), of "CHR ''.'' # fs @ CHR ''e'' # r"] dot_simps(3)
      by simp_all
    have b: "takeWhile is_digit (fs @ CHR ''e'' # r) = fs"
        "dropWhile is_digit (fs @ CHR ''e'' # r) = CHR ''e'' # r"
      using takeWhile_digits_prefix [OF fs, of "CHR ''e'' # r"] c(2) by simp_all
    show ?thesis
      using c(1) by (simp add: match_here_def fr a b tl Let_def)
  qed
qed

lemma Parse_scientific_rejected:
  assumes "list_all is_digit ds" "is_fraction fr" "ds @ drop 1 fr \<noteq> []"
    and "lower_ascii c = CHR ''e''"
    and "sg = [] \<or> sg = [CHR ''+''] \<or> sg = [CHR ''-'']"
    and "list_all is_digit es" "es \<noteq> []"
    and "ParseFloat (ds @ fr @ c # sg @ es) = Inl err"
  shows "Parse pf (ds @ fr @ c # sg @ es) =
    Inl (if round_f64 (decimal_value ds (drop 1 fr)) = PInf then NumError (ds @ fr) ErrRange
         else InvalidUnitSuffix ''e'')"
proof -
  define s where "s = ds @ fr @ c # sg @ es"
  define r where "r = sg @ es"
  note cl = exponent_letter [OF assms(4)]
  have ds: "list_all is_ascii ds" "map lower_ascii ds = ds"
    using assms(1) is_digit_simps(11,12) by (auto simp: list_all_iff map_idI)
  have es: "list_all is_ascii es" "map lower_ascii es = es"
    using assms(6) is_digit_simps(11,12) by (auto simp: list_all_iff map_idI)
  have fr: "list_all is_ascii fr \<and> map lower_ascii fr = fr"
  proof (rule is_fraction_cases [OF assms(2)])
    assume "fr = []"
    then show ?thesis by simp
  next
    fix fs
    assume "fr = CHR ''.'' # fs" "list_all is_digit fs"
    then show ?thesis
      using is_digit_simps(11,12) dot_simps(2,5) by (auto simp: list_all_iff map_idI)
  qed
  have sg: "list_all is_ascii sg \<and> map lower_ascii sg = sg"
    using assms(5) by (auto simp: is_ascii_def lower_ascii_def is_upper_def byte_def)
  have c: "is_ascii c"
    using cl(5) by (auto simp: is_ascii_def byte_def)
  have low: "ToLower pf s = ds @ fr @ CHR ''e'' # r"
    using ds es fr sg c assms(4) by (simp add: ToLower_def s_def r_def)
  obtain d es' where d: "es = d # es'"
    using assms(7) by (cases es) auto
  have "\<not> is_lower (hd r)"
    using assms(5,6) is_digit_simps(10) [of d]
    by (auto simp: r_def d is_lower_def byte_def)
  then have mh: "match_here (ds @ fr @ CHR ''e'' # r) = Some (ds, fr, ''e'')"
    by (intro match_here_exponent [OF assms(1,2)]) simp
  obtain h t where "ds @ fr @ CHR ''e'' # r = h # t"
    by (cases "ds @ fr @ CHR ''e'' # r") auto
  then have m: "FindStringSubmatch (ds @ fr @ CHR ''e'' # r) = Some (ds, fr, ''e'')"
    using mh by (metis FindStringSubmatch.simps(2) option.simps(5))
  have ne: "(s = []) = False"
    by (simp add: s_def)
  have pfl: "ParseFloat s = Inl err"
    using assms(8) by (simp only: s_def)
  have sz: "suffixSize ''e'' = Inl (InvalidUnitSuffix ''e'')"
    by simp
  have "Parse pf s =
    (case ParseFloat (ds @ fr) of
       Inl err \<Rightarrow> Inl err
     | Inr f \<Rightarrow> Inl (InvalidUnitSuffix ''e''))"
    unfolding Parse_def
    by (cases "ParseFloat (ds @ fr)")
      (simp_all only: ne if_False pfl low m sz sum.case option.case prod.case)
  then show ?thesis
    unfolding s_def using ParseFloat_decimal [OF assms(1-3)] by simp
qed

text \<open>
  C10, as the code has it. Whatever \<^verbatim>\<open>strconv.ParseFloat\<close> accepts, \<open>Parse\<close> accepts as a plain
  number, and the result is the conversion of that float64: the fast path is not limited
  to digits with an optional fraction. Every literal in exponent notation, digits with an
  optional fraction, \<^verbatim>\<open>e\<close> or \<^verbatim>\<open>E\<close>, an optional sign and the digits of an exponent below
  10000, is accepted when its value rounds to a finite float64, and \<open>Parse\<close> returns the
  conversion of that float64; \<open>Parse ''1e3''\<close> returns 1000. When the value overflows,
  \<^verbatim>\<open>ParseFloat\<close> rejects the literal with \<^verbatim>\<open>ErrRange\<close> and \<open>Parse\<close> fails: the regular
  expression takes the \<^verbatim>\<open>e\<close> for the unit.
\<close>

theorem Parse_fast_path:
  "(\<forall>f. ParseFloat s = Inr f \<longrightarrow> Parse pf s = Inr (f64_to_u64 pf f))
   \<and> (list_all is_digit ds \<and> is_fraction fr \<and> ds @ drop 1 fr \<noteq> []
        \<and> (c = CHR ''e'' \<or> c = CHR ''E'')
        \<and> (sg = [] \<or> sg = [CHR ''+''] \<or> sg = [CHR ''-''])
        \<and> list_all is_digit es \<and> es \<noteq> [] \<and> digits_value es < 10000 \<longrightarrow>
      (if round_f64 (scientific_value ds (drop 1 fr) sg es) = PInf
       then ParseFloat (ds @ fr @ c # sg @ es) = Inl (NumError (ds @ fr @ c # sg @ es) ErrRange)
            \<and> Parse pf (ds @ fr @ c # sg @ es)
              = Inl (if round_f64 (decimal_value ds (drop 1 fr)) = PInf
                     then NumError (ds @ fr) ErrRange else InvalidUnitSuffix ''e'')
       else ParseFloat (ds @ fr @ c # sg @ es)
              = Inr (round_f64 (scientific_value ds (drop 1 fr) sg es))
            \<and> Parse pf (ds @ fr @ c # sg @ es)
              = Inr (f64_to_u64 pf (round_f64 (scientific_value ds (drop 1 fr) sg es)))))
   \<and> ParseFloat ''1e3'' = Inr (Finite 1000)
   \<and> Parse pf ''1e3'' = Inr 1000"
proof -
  have general: "Parse pf s = Inr (f64_to_u64 pf f)" if "ParseFloat s = Inr f" for f s
  proof -
    have "s \<noteq> []"
      using that by (auto simp: parsefloat_eval)
    then show ?thesis
      using that by (simp add: Parse_def)
  qed
  have sci: "if round_f64 (scientific_value ds (drop 1 fr) sg es) = PInf
       then ParseFloat (ds @ fr @ c # sg @ es) = Inl (NumError (ds @ fr @ c # sg @ es) ErrRange)
            \<and> Parse pf (ds @ fr @ c # sg @ es)
              = Inl (if round_f64 (decimal_value ds (drop 1 fr)) = PInf
                     then NumError (ds @ fr) ErrRange else InvalidUnitSuffix ''e'')
       else ParseFloat (ds @ fr @ c # sg @ es)
              = Inr (round_f64 (scientific_value ds (drop 1 fr) sg es))
            \<and> Parse pf (ds @ fr @ c # sg @ es)
              = Inr (f64_to_u64 pf (round_f64 (scientific_value ds (drop 1 fr) sg es)))"
    if a: "list_all is_digit ds" "is_fraction fr" "ds @ drop 1 fr \<noteq> []"
      and c: "c = CHR ''e'' \<or> c = CHR ''E''"
      and b: "sg = [] \<or> sg = [CHR ''+''] \<or> sg = [CHR ''-'']"
        "list_all is_digit es" "es \<noteq> []" "digits_value es < 10000"
  proof -
    have lc: "lower_ascii c = CHR ''e''"
      using c by (auto simp: char_eval)
    note p = ParseFloat_scientific [OF a lc b]
    show ?thesis
    proof (cases "round_f64 (scientific_value ds (drop 1 fr) sg es) = PInf")
      case True
      then have e: "ParseFloat (ds @ fr @ c # sg @ es)
                    = Inl (NumError (ds @ fr @ c # sg @ es) ErrRange)"
        using p by simp
      show ?thesis
        using True e Parse_scientific_rejected [OF a lc b(1-3) e, of pf] by simp
    next
      case False
      then have e: "ParseFloat (ds @ fr @ c # sg @ es)
                    = Inr (round_f64 (scientific_value ds (drop 1 fr) sg es))"
        using p by simp
      show ?thesis
        using False e general [OF e] by simp
    qed
  qed
  have "ParseFloat ''1e3'' = Inr (Finite 1000)"
    by (simp add: parsefloat_eval char_eval f64_eval)
  moreover have "Parse pf ''1e3'' = Inr 1000"
    by (simp add: parse_eval)
  ultimately show ?thesis
    using general sci by blast
qed

theorem Parse_fast_path_witness:
  "ParseFloat ''0x1p-2'' = Inr (Finite (1 / 4))
   \<and> Parse example_platform ''0x1p-2'' = Inr 0
   \<and> scientific_value ''2'' ''5'' ''+'' ''2'' = 250
   \<and> ParseFloat ''2.5E+2'' = Inr (Finite 250)
   \<and> Parse example_platform ''2.5E+2'' = Inr 250"
proof -
  have pf: "ParseFloat ''0x1p-2'' = Inr (Finite (1 / 4))"
    by (simp add: parsefloat_eval char_eval f64_eval)
  have hex: "Parse example_platform ''0x1p-2'' = Inr (f64_to_u64 example_platform (Finite (1 / 4)))"
    using Parse_fast_path [of "''0x1p-2''" example_platform] pf by blast
  have v: "scientific_value ''2'' ''5'' ''+'' ''2'' = 250"
    by (simp add: scientific_value_def decimal_value_def digits_value_def digit_val_def byte_def)
  have r: "round_f64 250 = Finite 250"
    by (simp add: f64_eval)
  have d: "list_all is_digit ''2''" "is_fraction ''.5''" "''2'' @ drop 1 ''.5'' \<noteq> []"
      "list_all is_digit ''2''" "digits_value ''2'' < 10000"
    by (simp_all add: is_fraction_def is_digit_def byte_def digits_value_def digit_val_def)
  have "ParseFloat (''2'' @ ''.5'' @ CHR ''E'' # ''+'' @ ''2'') = Inr (Finite 250)
        \<and> Parse example_platform (''2'' @ ''.5'' @ CHR ''E'' # ''+'' @ ''2'')
          = Inr (f64_to_u64 example_platform (Finite 250))"
    using Parse_fast_path [of "''1''" example_platform "''2''" "''.5''" "CHR ''E''" "''+''" "''2''"]
      d v r by simp
  then show ?thesis
    using pf hex v by (simp add: f64_eval f64_to_u64_def truncate_rat_def)
qed

text \<open>
  The claim as stated, that every string in floating-point syntax parses, fails at
  \<^verbatim>\<open>1e400\<close>: the value is above every float64, \<^verbatim>\<open>ParseFloat\<close> returns \<^verbatim>\<open>ErrRange\<close>, and
  \<open>Parse\<close> fails with an invalid unit suffix \<^verbatim>\<open>e\<close>.
\<close>

theorem Parse_overflow_counterexample:
  "round_f64 (scientific_value ''1'' [] [] ''400'') = PInf
   \<and> ParseFloat ''1e400'' = Inl (NumError ''1e400'' ErrRange)
   \<and> Parse example_platform ''1e400'' = Inl (InvalidUnitSuffix ''e'')"
proof -
  have v: "scientific_value ''1'' [] [] ''400'' = 10 ^ 400"
    by (simp add: scientific_value_def decimal_value_def digits_value_def digit_val_def byte_def)
  have "(2 :: rat) powi 1024 \<le> 10 ^ 400"
    by simp
  then have inf: "round_f64 (scientific_value ''1'' [] [] ''400'') = PInf"
    unfolding v by (rule round_f64_overflow)
  have d: "list_all is_digit ''1''" "is_fraction []" "''1'' @ drop 1 [] \<noteq> []"
      "lower_ascii CHR ''e'' = CHR ''e''" "[] = [] \<or> [] = [CHR ''+''] \<or> [] = [CHR ''-'']"
      "list_all is_digit ''400''" "''400'' \<noteq> []" "digits_value ''400'' < 10000"
    by (simp_all add: is_fraction_def char_eval digits_value_def digit_val_def)
  have p: "ParseFloat ''1e400'' = Inl (NumError ''1e400'' ErrRange)"
    using ParseFloat_scientific [OF d] inf by simp
  have one: "round_f64 (decimal_value ''1'' (drop 1 [])) = Finite 1"
    by (simp add: decimal_value_def digits_value_def digit_val_def byte_def f64_eval)
  have "Parse example_platform (''1'' @ [] @ CHR ''e'' # [] @ ''400'')
        = Inl (InvalidUnitSuffix ''e'')"
    by (subst Parse_scientific_rejected [OF d(1-7)]) (use p one in simp_all)
  then show ?thesis
    using inf p by simp
qed

section \<open>The errors of Parse\<close>










section \<open>Parse truncates a float64\<close>











end
